theory Spec2Isabelle
  imports Main "HOL-Library.Char_ord" "HOL-Library.AList"
begin

section \<open>Regular expressions as lib/cell.js uses them\<close>

text \<open>
  The source uses four regular expressions, all built from greedy bounded or unbounded
  repetitions of a character class and one optional group:
  \<^verbatim>\<open>/\d+/\<close> and \<^verbatim>\<open>/[A-Z]+/\<close> in the \<open>row\<close> and \<open>col\<close> getters, and in
  \<open>FormulaValue.dependencies\<close>
  \<^verbatim>\<open>/([a-zA-Z0-9]+!)?[A-Z]{1,3}\d{1,4}:[A-Z]{1,3}\d{1,4}/g\<close> and
  \<^verbatim>\<open>/([a-zA-Z0-9]+!)?[A-Z]{1,3}\d{1,4}/g\<close>.
  The matcher below is the backtracking matcher of ECMAScript restricted to that fragment:
  a repetition first takes as many characters as it may and gives them back one at a time,
  an optional group is tried before it is skipped.
\<close>

datatype cls = Upper | Digit | AlNum | Lit char

fun in_cls :: "cls \<Rightarrow> char \<Rightarrow> bool" where
  "in_cls Upper c = (CHR ''A'' \<le> c \<and> c \<le> CHR ''Z'')"
| "in_cls Digit c = (CHR ''0'' \<le> c \<and> c \<le> CHR ''9'')"
| "in_cls AlNum c = ((CHR ''a'' \<le> c \<and> c \<le> CHR ''z'') \<or> (CHR ''A'' \<le> c \<and> c \<le> CHR ''Z'')
                      \<or> (CHR ''0'' \<le> c \<and> c \<le> CHR ''9''))"
| "in_cls (Lit d) c = (c = d)"

text \<open>\<open>Rep c lo hi\<close> is \<open>c{lo,hi}\<close>, with \<open>hi = None\<close> for no upper bound;
  \<open>Opt as\<close> is \<open>(as)?\<close> for a sequence of repetitions.\<close>

datatype atom = Rep cls nat "nat option"

datatype rx = A atom | Opt "atom list"

fun may_take :: "nat option \<Rightarrow> bool" where
  "may_take None = True"
| "may_take (Some k) = (0 < k)"

fun less_one :: "nat option \<Rightarrow> nat option" where
  "less_one None = None"
| "less_one (Some k) = Some (k - 1)"

fun rx_size :: "rx \<Rightarrow> nat" where
  "rx_size (A a) = 1"
| "rx_size (Opt as) = Suc (length as)"

text \<open>\<open>rx_match r s\<close> matches the sequence \<open>r\<close> at the start of \<open>s\<close> and returns what
  is left of \<open>s\<close> after the first match in the matcher's priority order.\<close>

function rx_match :: "rx list \<Rightarrow> string \<Rightarrow> string option" where
  "rx_match [] s = Some s"
| "rx_match (A (Rep c lo hi) # rs) [] = (if lo = 0 then rx_match rs [] else None)"
| "rx_match (A (Rep c lo hi) # rs) (x # xs) =
     (if may_take hi \<and> in_cls c x then
        (case rx_match (A (Rep c (lo - 1) (less_one hi)) # rs) xs of
           Some rest \<Rightarrow> Some rest
         | None \<Rightarrow> (if lo = 0 then rx_match rs (x # xs) else None))
      else if lo = 0 then rx_match rs (x # xs) else None)"
| "rx_match (Opt as # rs) s =
     (case rx_match (map A as @ rs) s of
        Some rest \<Rightarrow> Some rest
      | None \<Rightarrow> rx_match rs s)"
  by pat_completeness auto
termination
  by (relation "measures [\<lambda>(r, s). sum_list (map rx_size r), \<lambda>(r, s). length s]")
     (auto simp: comp_def sum_list_triv)

text \<open>\<open>String.prototype.match\<close> with a global regular expression: the matches from left
  to right, the search resuming after each match (one character further after an empty
  one); \<open>null\<close>, here \<open>None\<close>, when there is no match at all.\<close>

function scan :: "rx list \<Rightarrow> string \<Rightarrow> string list" where
  "scan r s =
     (case rx_match r s of
        Some rest \<Rightarrow>
          take (length s - length rest) s #
            (if s = [] then [] else scan r (drop (max 1 (length s - length rest)) s))
      | None \<Rightarrow> (if s = [] then [] else scan r (tl s)))"
  by pat_completeness auto
termination
  by (relation "measure (\<lambda>(r, s). length s)") auto

definition js_match_g :: "rx list \<Rightarrow> string \<Rightarrow> string list option" where
  "js_match_g r s = (case scan r s of [] \<Rightarrow> None | m # ms \<Rightarrow> Some (m # ms))"

text \<open>\<open>String.prototype.replace\<close> with a global regular expression and the replacement
  \<open>""\<close>: the text with every match removed.\<close>

function strip :: "rx list \<Rightarrow> string \<Rightarrow> string" where
  "strip r s =
     (case rx_match r s of
        Some rest \<Rightarrow>
          (if s = [] then []
           else if length s - length rest = 0 then hd s # strip r (tl s)
           else strip r (drop (length s - length rest) s))
      | None \<Rightarrow> (if s = [] then [] else hd s # strip r (tl s)))"
  by pat_completeness auto
termination
  by (relation "measure (\<lambda>(r, s). length s)") auto

text \<open>A match without the global flag, as \<open>row\<close> and \<open>col\<close> use it: the first match
  from the left, \<open>null\<close> when there is none.\<close>

fun js_match_first :: "rx list \<Rightarrow> string \<Rightarrow> string option" where
  "js_match_first r [] =
     (case rx_match r [] of Some rest \<Rightarrow> Some [] | None \<Rightarrow> None)"
| "js_match_first r (x # xs) =
     (case rx_match r (x # xs) of
        Some rest \<Rightarrow> Some (take (length (x # xs) - length rest) (x # xs))
      | None \<Rightarrow> js_match_first r xs)"

definition sheet_prefix :: rx where
  "sheet_prefix = Opt [Rep AlNum 1 None, Rep (Lit (CHR ''!'')) 1 (Some 1)]"

definition cell_ref :: "rx list" where
  "cell_ref = [A (Rep Upper 1 (Some 3)), A (Rep Digit 1 (Some 4))]"

definition range_rx :: "rx list" where
  "range_rx = sheet_prefix # cell_ref @ [A (Rep (Lit (CHR '':'')) 1 (Some 1))] @ cell_ref"

definition cell_rx :: "rx list" where
  "cell_rx = sheet_prefix # cell_ref"

text \<open>The object \<open>{ranges: ..., cells: ...}\<close> that the \<open>dependencies\<close> getter returns.\<close>

record deps =
  ranges :: "string list option"
  cells :: "string list option"

definition dependencies_of :: "string \<Rightarrow> deps" where
  "dependencies_of formula =
     \<lparr> ranges = js_match_g range_rx formula,
       cells = js_match_g cell_rx (strip range_rx formula) \<rparr>"


subsection \<open>What the specification says of the two patterns\<close>

text \<open>The two kinds of reference in the words of the specification: an optional
  \<open>sheet!\<close> prefix, one to three column letters and one to four row digits; a range is two
  such column-and-row pairs with a colon between them, the prefix before the first.\<close>

definition col_letters :: "string \<Rightarrow> bool" where
  "col_letters s = (1 \<le> length s \<and> length s \<le> 3 \<and> list_all (in_cls Upper) s)"

definition row_digits :: "string \<Rightarrow> bool" where
  "row_digits s = (1 \<le> length s \<and> length s \<le> 4 \<and> list_all (in_cls Digit) s)"

definition sheet_part :: "string \<Rightarrow> bool" where
  "sheet_part p = (p = [] \<or> (\<exists>n. n \<noteq> [] \<and> list_all (in_cls AlNum) n \<and> p = n @ ''!''))"

definition cell_shape :: "string \<Rightarrow> bool" where
  "cell_shape s = (\<exists>p c d. s = p @ c @ d \<and> sheet_part p \<and> col_letters c \<and> row_digits d)"

definition range_shape :: "string \<Rightarrow> bool" where
  "range_shape s =
     (\<exists>p c d c' d'. s = p @ c @ d @ '':'' @ c' @ d' \<and> sheet_part p
        \<and> col_letters c \<and> row_digits d \<and> col_letters c' \<and> row_digits d')"

text \<open>\<open>extracted L s ms rem\<close>: \<open>ms\<close> are the references of shape \<open>L\<close> extracted from the
  text \<open>s\<close>, and \<open>rem\<close> is the text that remains. The text is read from the left; the next
  reference starts at the first place where a word of shape \<open>L\<close> starts, it is the longest
  word of shape \<open>L\<close> that starts there, and the reading goes on behind it; the pieces
  between the references, in their order, make up the remaining text. There is none left
  to extract when no word of shape \<open>L\<close> starts anywhere.\<close>

inductive extracted :: "(string \<Rightarrow> bool) \<Rightarrow> string \<Rightarrow> string list \<Rightarrow> string \<Rightarrow> bool"
  for L :: "string \<Rightarrow> bool" where
  ex_none: "(\<forall>k w u. drop k s = w @ u \<longrightarrow> \<not> L w) \<Longrightarrow> extracted L s [] s"
| ex_match: "(\<forall>i w u. i < k \<longrightarrow> drop i s = w @ u \<longrightarrow> \<not> L w) \<Longrightarrow> s = g @ m @ rest \<Longrightarrow>
     length g = k \<Longrightarrow> L m \<Longrightarrow>
     (\<forall>w u. m @ rest = w @ u \<longrightarrow> L w \<longrightarrow> length w \<le> length m) \<Longrightarrow>
     extracted L rest ms rem \<Longrightarrow> extracted L s (m # ms) (g @ rem)"

text \<open>The words a sequence of repetitions and optional groups stands for, whatever the
  order in which a matcher tries them.\<close>

function rx_lang :: "rx list \<Rightarrow> string \<Rightarrow> bool" where
  "rx_lang [] w = (w = [])"
| "rx_lang (A (Rep c lo hi) # rs) w =
     (\<exists>u v. w = u @ v \<and> list_all (in_cls c) u \<and> lo \<le> length u
        \<and> (case hi of None \<Rightarrow> True | Some k \<Rightarrow> length u \<le> k) \<and> rx_lang rs v)"
| "rx_lang (Opt as # rs) w = (rx_lang (map A as @ rs) w \<or> rx_lang rs w)"
  by pat_completeness auto
termination
  by (relation "measure (\<lambda>(r, s). sum_list (map rx_size r))")
     (auto simp: comp_def sum_list_triv)

text \<open>A range up to its last row digits.\<close>

definition range_head :: "rx list" where
  "range_head = cell_ref @ [A (Rep (Lit (CHR '':'')) 1 (Some 1)), A (Rep Upper 1 (Some 3))]"

section \<open>JavaScript values, objects and the heap\<close>

text \<open>Modelled from the spec: \<open>./enums\<close>, which defines \<open>Enums.ValueType\<close>
  (\<open>Cell.Types\<close> in the source), is not among the source files. The spec treats its members
  as "an externally defined closed set of tags": seven distinct constants, here the
  constructors of \<open>ValueType\<close>, in the order of the table \<open>Value.types\<close>.\<close>

datatype ValueType = TNull | TNumber | TString | TDate | THyperlink | TFormula | TMerge

type_synonym ref = nat

text \<open>The values a payload, a snapshot field or a style field may hold. \<open>JNum\<close> covers the
  numbers that are integers (and that \<open>"" + n\<close> prints in plain decimal), \<open>JDate\<close> a valid Date by its time value, \<open>JObj\<close> a plain
  object by its address in the heap, \<open>JTag\<close> a member of \<open>Enums.ValueType\<close>. Cell objects
  are not among these values: they are passed where the source expects a Cell (\<open>merge\<close>,
  \<open>isMergedTo\<close>, the \<open>master\<close> getter, the Cell branch of \<open>MergeValue\<close>'s value setter), as
  a \<open>cid\<close>. A tag in a payload position counts as a truthy primitive that is neither a
  string, a number nor a Date.\<close>

datatype jsval =
    JUndefined
  | JNull
  | JBool bool
  | JNum int
  | JStr string
  | JDate int
  | JTag ValueType
  | JObj ref

text \<open>A plain object: its own properties in insertion order.\<close>

type_synonym jsobj = "(string \<times> jsval) list"

type_synonym cid = nat

text \<open>The seven Value classes. Every instance holds \<open>this.model\<close>; a \<open>MergeValue\<close> also
  holds \<open>this._master\<close>, a Cell or \<open>undefined\<close>. The third field of \<open>MergeValue\<close> is no
  field of the source, and no operation reads it: it records that \<open>release()\<close> has been
  called on the object, which is what "live (not yet released)" refers to in the
  specification of the merge count.\<close>

datatype valueobj =
    NullValue jsval
  | NumberValue jsval
  | StringValue jsval
  | DateValue jsval
  | HyperlinkValue jsval
  | FormulaValue jsval
  | MergeValue jsval "cid option" bool

text \<open>A Cell object: \<open>_row\<close>, \<open>_address\<close>, \<open>_col\<close>, \<open>_value\<close>, \<open>style\<close> and
  \<open>_mergeCount\<close>.\<close>

record cell =
  c_row :: jsval
  c_address :: string
  c_col :: jsval
  c_value :: valueobj
  c_style :: jsval
  c_mergeCount :: int

text \<open>The heap: the plain objects by address, the Cell objects by identity, and the Value
  objects that a cell has replaced by another. A cell no longer refers to a Value it has
  replaced, but the object stays what it was, and a program that kept \<open>cell._value\<close> can
  still call its methods. A new object takes the next index.\<close>

record heap =
  h_objs :: "jsobj list"
  h_cells :: "cell list"
  h_detached :: "valueobj list"

text \<open>What the source throws. \<open>RangeError\<close> is the engine's "Maximum call stack size
  exceeded". \<open>Dangling\<close> has no counterpart in JavaScript, where a reference always names
  an object: it is the model's answer to an index that names none.\<close>

datatype error =
    TypeError
  | RangeError
  | MissingOwner
  | InvalidAddress
  | UnrecognizedType
  | UnknownValueType
  | UnsupportedResultType
  | Dangling

text \<open>The outcome of a call that may change the heap: the returned value, or the error
  thrown, each with the heap as the call left it.\<close>

datatype 'a res = Ok 'a heap | Err error heap

text \<open>The heap a call leaves, whether it returned or threw.\<close>

fun heap_of :: "'a res \<Rightarrow> heap" where
  "heap_of (Ok x h) = h"
| "heap_of (Err e h) = h"

text \<open>What the source takes from outside: \<open>colCache.validateAddress\<close> (\<open>False\<close> when it
  throws) and \<open>colCache.l2n\<close> of \<open>./colcache\<close>, which is not among the source files, and the
  built-in string conversions of a Date and of a tag.\<close>

record env =
  validateAddress :: "string \<Rightarrow> bool"
  l2n :: "string \<Rightarrow> int"
  toISOString :: "int \<Rightarrow> string"
  dateToString :: "int \<Rightarrow> string"
  tagToString :: "ValueType \<Rightarrow> string"

fun truthy :: "jsval \<Rightarrow> bool" where
  "truthy JUndefined = False"
| "truthy JNull = False"
| "truthy (JBool b) = b"
| "truthy (JNum n) = (n \<noteq> 0)"
| "truthy (JStr s) = (s \<noteq> [])"
| "truthy (JDate d) = True"
| "truthy (JTag t) = True"
| "truthy (JObj r) = True"

text \<open>\<open>v.f\<close> for the property names the source reads (none of them is a property of a
  primitive's prototype): a \<open>TypeError\<close> on \<open>undefined\<close> and \<open>null\<close>, \<open>undefined\<close> on any
  other primitive and for a property the object does not have.\<close>

definition field_of :: "jsobj \<Rightarrow> string \<Rightarrow> jsval" where
  "field_of ob f = (case map_of ob f of None \<Rightarrow> JUndefined | Some v \<Rightarrow> v)"

fun get_prop :: "heap \<Rightarrow> jsval \<Rightarrow> string \<Rightarrow> error + jsval" where
  "get_prop h JUndefined f = Inl TypeError"
| "get_prop h JNull f = Inl TypeError"
| "get_prop h (JObj r) f =
     (if r < length (h_objs h) then Inr (field_of (h_objs h ! r) f) else Inl Dangling)"
| "get_prop h (JBool b) f = Inr JUndefined"
| "get_prop h (JNum n) f = Inr JUndefined"
| "get_prop h (JStr s) f = Inr JUndefined"
| "get_prop h (JDate d) f = Inr JUndefined"
| "get_prop h (JTag t) f = Inr JUndefined"

text \<open>\<open>v.f = x\<close> under \<open>"use strict"\<close>: a \<open>TypeError\<close> on anything but an object.\<close>

fun set_prop :: "heap \<Rightarrow> jsval \<Rightarrow> string \<Rightarrow> jsval \<Rightarrow> unit res" where
  "set_prop h (JObj r) f x =
     (if r < length (h_objs h)
      then Ok () (h\<lparr>h_objs := (h_objs h)[r := AList.update f x (h_objs h ! r)]\<rparr>)
      else Err Dangling h)"
| "set_prop h JUndefined f x = Err TypeError h"
| "set_prop h JNull f x = Err TypeError h"
| "set_prop h (JBool b) f x = Err TypeError h"
| "set_prop h (JNum n) f x = Err TypeError h"
| "set_prop h (JStr s) f x = Err TypeError h"
| "set_prop h (JDate d) f x = Err TypeError h"
| "set_prop h (JTag t) f x = Err TypeError h"

text \<open>An object literal: a new object at the next address.\<close>

definition alloc :: "heap \<Rightarrow> jsobj \<Rightarrow> jsval \<times> heap" where
  "alloc h ob = (JObj (length (h_objs h)), h\<lparr>h_objs := h_objs h @ [ob]\<rparr>)"

definition upd_cell :: "heap \<Rightarrow> cid \<Rightarrow> (cell \<Rightarrow> cell) \<Rightarrow> heap" where
  "upd_cell h c f = h\<lparr>h_cells := (h_cells h)[c := f (h_cells h ! c)]\<rparr>"

definition valid_cell :: "heap \<Rightarrow> cid \<Rightarrow> bool" where
  "valid_cell h c = (c < length (h_cells h))"

definition the_cell :: "heap \<Rightarrow> cid \<Rightarrow> cell" where
  "the_cell h c = h_cells h ! c"

text \<open>Where a Value object is: a cell holds it as its \<open>_value\<close>, or it is one of the
  replaced ones.\<close>

datatype vloc = Held cid | Detached nat

fun valid_loc :: "heap \<Rightarrow> vloc \<Rightarrow> bool" where
  "valid_loc h (Held c) = valid_cell h c"
| "valid_loc h (Detached i) = (i < length (h_detached h))"

fun value_at :: "heap \<Rightarrow> vloc \<Rightarrow> valueobj" where
  "value_at h (Held c) = c_value (the_cell h c)"
| "value_at h (Detached i) = h_detached h ! i"

text \<open>A change of the fields of the Value object at a place.\<close>

fun put_value :: "heap \<Rightarrow> vloc \<Rightarrow> valueobj \<Rightarrow> heap" where
  "put_value h (Held c) v = upd_cell h c (\<lambda>x. x\<lparr>c_value := v\<rparr>)"
| "put_value h (Detached i) v = h\<lparr>h_detached := (h_detached h)[i := v]\<rparr>"

text \<open>\<open>this._value = v\<close> in a method of cell \<open>c\<close>: the Value the cell held is from now on
  a detached object.\<close>

definition install :: "heap \<Rightarrow> cid \<Rightarrow> valueobj \<Rightarrow> heap" where
  "install h c v =
     upd_cell (h\<lparr>h_detached := h_detached h @ [c_value (the_cell h c)]\<rparr>) c (\<lambda>x. x\<lparr>c_value := v\<rparr>)"

section \<open>The Value classes\<close>

fun kind :: "valueobj \<Rightarrow> ValueType" where
  "kind (NullValue m) = TNull"
| "kind (NumberValue m) = TNumber"
| "kind (StringValue m) = TString"
| "kind (DateValue m) = TDate"
| "kind (HyperlinkValue m) = THyperlink"
| "kind (FormulaValue m) = TFormula"
| "kind (MergeValue m a rl) = TMerge"

fun model_of :: "valueobj \<Rightarrow> jsval" where
  "model_of (NullValue m) = m"
| "model_of (NumberValue m) = m"
| "model_of (StringValue m) = m"
| "model_of (DateValue m) = m"
| "model_of (HyperlinkValue m) = m"
| "model_of (FormulaValue m) = m"
| "model_of (MergeValue m a rl) = m"

text \<open>\<open>value.model = m\<close> on a Value object.\<close>

fun with_model :: "valueobj \<Rightarrow> jsval \<Rightarrow> valueobj" where
  "with_model (NullValue m) x = NullValue x"
| "with_model (NumberValue m) x = NumberValue x"
| "with_model (StringValue m) x = StringValue x"
| "with_model (DateValue m) x = DateValue x"
| "with_model (HyperlinkValue m) x = HyperlinkValue x"
| "with_model (FormulaValue m) x = FormulaValue x"
| "with_model (MergeValue m a rl) x = MergeValue x a rl"

fun master_of :: "valueobj \<Rightarrow> cid option" where
  "master_of (MergeValue m a rl) = a"
| "master_of (NullValue m) = None"
| "master_of (NumberValue m) = None"
| "master_of (StringValue m) = None"
| "master_of (DateValue m) = None"
| "master_of (HyperlinkValue m) = None"
| "master_of (FormulaValue m) = None"

text \<open>\<open>Cell.prototype.addMergeRef\<close> and \<open>releaseMergeRef\<close>.\<close>

definition addMergeRef :: "heap \<Rightarrow> cid \<Rightarrow> heap" where
  "addMergeRef h c = upd_cell h c (\<lambda>x. x\<lparr>c_mergeCount := c_mergeCount x + 1\<rparr>)"

definition releaseMergeRef :: "heap \<Rightarrow> cid \<Rightarrow> heap" where
  "releaseMergeRef h c = upd_cell h c (\<lambda>x. x\<lparr>c_mergeCount := c_mergeCount x - 1\<rparr>)"

text \<open>\<open>release\<close> of each class: nothing but for a \<open>MergeValue\<close>, where
  \<open>this._master.releaseMergeRef()\<close> throws on a master that is \<open>undefined\<close>.\<close>

fun release :: "heap \<Rightarrow> valueobj \<Rightarrow> unit res" where
  "release h (MergeValue m None rl) = Err TypeError h"
| "release h (MergeValue m (Some a) rl) = Ok () (releaseMergeRef h a)"
| "release h (NullValue m) = Ok () h"
| "release h (NumberValue m) = Ok () h"
| "release h (StringValue m) = Ok () h"
| "release h (DateValue m) = Ok () h"
| "release h (HyperlinkValue m) = Ok () h"
| "release h (FormulaValue m) = Ok () h"

text \<open>Whether \<open>release()\<close> has been called on a Value object, and the note of it.\<close>

fun released :: "valueobj \<Rightarrow> bool" where
  "released (MergeValue m a rl) = rl"
| "released (NullValue m) = False"
| "released (NumberValue m) = False"
| "released (StringValue m) = False"
| "released (DateValue m) = False"
| "released (HyperlinkValue m) = False"
| "released (FormulaValue m) = False"

fun mark_released :: "valueobj \<Rightarrow> valueobj" where
  "mark_released (MergeValue m a rl) = MergeValue m a True"
| "mark_released (NullValue m) = NullValue m"
| "mark_released (NumberValue m) = NumberValue m"
| "mark_released (StringValue m) = StringValue m"
| "mark_released (DateValue m) = DateValue m"
| "mark_released (HyperlinkValue m) = HyperlinkValue m"
| "mark_released (FormulaValue m) = FormulaValue m"

text \<open>\<open>v.release()\<close> on the Value object at a place: \<open>this._value.release()\<close> in a method
  of cell \<open>c\<close> is \<open>release_value h (Held c)\<close>. A call that throws has released nothing.\<close>

definition release_value :: "heap \<Rightarrow> vloc \<Rightarrow> unit res" where
  "release_value h l =
     (case release h (value_at h l) of
        Err e h1 \<Rightarrow> Err e h1
      | Ok u h1 \<Rightarrow> Ok () (put_value h1 l (mark_released (value_at h1 l))))"

text \<open>The constructors. Each builds \<open>this.model\<close> from \<open>cell.address\<close>, its tag and its
  payload.\<close>

definition new_NullValue :: "heap \<Rightarrow> cid \<Rightarrow> valueobj res" where
  "new_NullValue h c =
     (case alloc h [(''address'', JStr (c_address (the_cell h c))), (''type'', JTag TNull)] of
        (m, h') \<Rightarrow> Ok (NullValue m) h')"

definition new_NumberValue :: "heap \<Rightarrow> cid \<Rightarrow> jsval \<Rightarrow> valueobj res" where
  "new_NumberValue h c v =
     (case alloc h [(''address'', JStr (c_address (the_cell h c))), (''type'', JTag TNumber),
                    (''value'', v)] of
        (m, h') \<Rightarrow> Ok (NumberValue m) h')"

definition new_StringValue :: "heap \<Rightarrow> cid \<Rightarrow> jsval \<Rightarrow> valueobj res" where
  "new_StringValue h c v =
     (case alloc h [(''address'', JStr (c_address (the_cell h c))), (''type'', JTag TString),
                    (''value'', v)] of
        (m, h') \<Rightarrow> Ok (StringValue m) h')"

definition new_DateValue :: "heap \<Rightarrow> cid \<Rightarrow> jsval \<Rightarrow> valueobj res" where
  "new_DateValue h c v =
     (case alloc h [(''address'', JStr (c_address (the_cell h c))), (''type'', JTag TDate),
                    (''value'', v)] of
        (m, h') \<Rightarrow> Ok (DateValue m) h')"

text \<open>\<open>value ? value.f : undefined\<close>.\<close>

definition prop_if_truthy :: "heap \<Rightarrow> jsval \<Rightarrow> string \<Rightarrow> error + jsval" where
  "prop_if_truthy h v f = (if truthy v then get_prop h v f else Inr JUndefined)"

definition new_HyperlinkValue :: "heap \<Rightarrow> cid \<Rightarrow> jsval \<Rightarrow> valueobj res" where
  "new_HyperlinkValue h c v =
     (case prop_if_truthy h v ''text'' of
        Inl e \<Rightarrow> Err e h
      | Inr t \<Rightarrow>
          (case prop_if_truthy h v ''hyperlink'' of
             Inl e \<Rightarrow> Err e h
           | Inr l \<Rightarrow>
               (case alloc h [(''address'', JStr (c_address (the_cell h c))),
                              (''type'', JTag THyperlink), (''text'', t), (''hyperlink'', l)] of
                  (m, h') \<Rightarrow> Ok (HyperlinkValue m) h')))"

definition new_FormulaValue :: "heap \<Rightarrow> cid \<Rightarrow> jsval \<Rightarrow> valueobj res" where
  "new_FormulaValue h c v =
     (case prop_if_truthy h v ''formula'' of
        Inl e \<Rightarrow> Err e h
      | Inr f \<Rightarrow>
          (case prop_if_truthy h v ''result'' of
             Inl e \<Rightarrow> Err e h
           | Inr r \<Rightarrow>
               (case alloc h [(''address'', JStr (c_address (the_cell h c))),
                              (''type'', JTag TFormula), (''formula'', f), (''result'', r)] of
                  (m, h') \<Rightarrow> Ok (FormulaValue m) h')))"

text \<open>\<open>MergeValue(cell, master)\<close>: the snapshot keeps the master's address, the object the
  master itself, and a master that is given gains a merge reference.\<close>

definition new_MergeValue :: "heap \<Rightarrow> cid \<Rightarrow> cid option \<Rightarrow> valueobj res" where
  "new_MergeValue h c master =
     (case alloc h [(''address'', JStr (c_address (the_cell h c))), (''type'', JTag TMerge),
                    (''master'', (case master of
                                    None \<Rightarrow> JUndefined
                                  | Some a \<Rightarrow> JStr (c_address (the_cell h a))))] of
        (m, h') \<Rightarrow>
          Ok (MergeValue m master False)
             (case master of None \<Rightarrow> h' | Some a \<Rightarrow> addMergeRef h' a))"

section \<open>Value: type inference and the factory\<close>

text \<open>\<open>Value.getType\<close>.\<close>

definition getType :: "heap \<Rightarrow> jsval \<Rightarrow> error + ValueType" where
  "getType h v =
     (case v of
        JUndefined \<Rightarrow> Inr TNull
      | JNull \<Rightarrow> Inr TNull
      | JStr s \<Rightarrow> Inr TString
      | JNum n \<Rightarrow> Inr TNumber
      | JDate d \<Rightarrow> Inr TDate
      | _ \<Rightarrow>
          (case get_prop h v ''text'' of
             Inl e \<Rightarrow> Inl e
           | Inr t \<Rightarrow>
               (case (if truthy t then get_prop h v ''hyperlink'' else Inr t) of
                  Inl e \<Rightarrow> Inl e
                | Inr th \<Rightarrow>
                    if truthy th then Inr THyperlink
                    else (case get_prop h v ''formula'' of
                            Inl e \<Rightarrow> Inl e
                          | Inr f \<Rightarrow> if truthy f then Inr TFormula else Inl UnrecognizedType))))"

text \<open>\<open>Value.types[type]\<close>: the constructor registered under a tag, \<open>undefined\<close> for any
  other key. \<open>Value.types\<close> is an Array, so in the source a key that names a property
  every Array has (\<open>"length"\<close>, \<open>"constructor"\<close>, the name of an Array method) finds that
  property instead of \<open>undefined\<close>; these keys are outside the model, which knows the
  seven registered tags and keys that name nothing.\<close>

fun types :: "jsval \<Rightarrow> ValueType option" where
  "types (JTag t) = Some t"
| "types JUndefined = None"
| "types JNull = None"
| "types (JBool b) = None"
| "types (JNum n) = None"
| "types (JStr s) = None"
| "types (JDate d) = None"
| "types (JObj r) = None"

text \<open>\<open>Value.create(type, cell, value)\<close>. The third argument of the source is the payload
  for six constructors and the master Cell for \<open>MergeValue\<close>; as a Cell is no \<open>jsval\<close> here,
  the two are separate arguments.\<close>

definition create :: "heap \<Rightarrow> jsval \<Rightarrow> cid \<Rightarrow> jsval \<Rightarrow> cid option \<Rightarrow> valueobj res" where
  "create h ty c v master =
     (case types ty of
        None \<Rightarrow> Err UnknownValueType h
      | Some TNull \<Rightarrow> new_NullValue h c
      | Some TNumber \<Rightarrow> new_NumberValue h c v
      | Some TString \<Rightarrow> new_StringValue h c v
      | Some TDate \<Rightarrow> new_DateValue h c v
      | Some THyperlink \<Rightarrow> new_HyperlinkValue h c v
      | Some TFormula \<Rightarrow> new_FormulaValue h c v
      | Some TMerge \<Rightarrow> new_MergeValue h c master)"

section \<open>Cell\<close>

text \<open>The constructor \<open>Cell(row, address)\<close>. The snapshot of the first \<open>NullValue\<close> and the
  empty style object are allocated in the order of the source.\<close>

definition new_Cell :: "env \<Rightarrow> heap \<Rightarrow> jsval \<Rightarrow> string \<Rightarrow> cid res" where
  "new_Cell E h row address =
     (if \<not> truthy row then Err MissingOwner h
      else if \<not> validateAddress E address then Err InvalidAddress h
      else
        (case alloc h [(''address'', JStr address), (''type'', JTag TNull)] of
           (m, h1) \<Rightarrow>
             (case alloc h1 [] of
                (s, h2) \<Rightarrow>
                  Ok (length (h_cells h2))
                     (h2\<lparr>h_cells := h_cells h2 @
                        [\<lparr>c_row = row, c_address = address, c_col = JUndefined,
                          c_value = NullValue m, c_style = s, c_mergeCount = 0\<rparr>]\<rparr>))))"

text \<open>\<open>parseInt\<close> of a string of decimal digits.\<close>

definition parseInt :: "string \<Rightarrow> int" where
  "parseInt ds = foldl (\<lambda>a d. 10 * a + (int (of_char d) - 48)) 0 ds"

text \<open>The \<open>row\<close> getter: parses the address when \<open>this._row\<close> is falsy, and returns
  \<open>this._row\<close>.\<close>

definition get_row :: "heap \<Rightarrow> cid \<Rightarrow> jsval res" where
  "get_row h c =
     (if \<not> valid_cell h c then Err Dangling h
      else if \<not> truthy (c_row (the_cell h c)) then
        (case js_match_first [A (Rep Digit 1 None)] (c_address (the_cell h c)) of
           None \<Rightarrow> Err TypeError h
         | Some ds \<Rightarrow> Ok (JNum (parseInt ds)) (upd_cell h c (\<lambda>x. x\<lparr>c_row := JNum (parseInt ds)\<rparr>)))
      else Ok (c_row (the_cell h c)) h)"

text \<open>The \<open>col\<close> getter.\<close>

definition get_col :: "env \<Rightarrow> heap \<Rightarrow> cid \<Rightarrow> jsval res" where
  "get_col E h c =
     (if \<not> valid_cell h c then Err Dangling h
      else if \<not> truthy (c_col (the_cell h c)) then
        (case js_match_first [A (Rep Upper 1 None)] (c_address (the_cell h c)) of
           None \<Rightarrow> Err TypeError h
         | Some ls \<Rightarrow> Ok (JNum (l2n E ls)) (upd_cell h c (\<lambda>x. x\<lparr>c_col := JNum (l2n E ls)\<rparr>)))
      else Ok (c_col (the_cell h c)) h)"

text \<open>The getters \<open>address\<close>, \<open>type\<close>, \<open>isMerged\<close>, \<open>master\<close> (\<open>None\<close> is \<open>undefined\<close>),
  \<open>isHyperlink\<close>, and \<open>isMergedTo\<close>.\<close>

definition get_address :: "heap \<Rightarrow> cid \<Rightarrow> string" where
  "get_address h c = c_address (the_cell h c)"

definition get_type :: "heap \<Rightarrow> cid \<Rightarrow> ValueType" where
  "get_type h c = kind (c_value (the_cell h c))"

definition get_mergeCount :: "heap \<Rightarrow> cid \<Rightarrow> int" where
  "get_mergeCount h c = c_mergeCount (the_cell h c)"

definition isMerged :: "heap \<Rightarrow> cid \<Rightarrow> bool" where
  "isMerged h c = (c_mergeCount (the_cell h c) > 0 \<or> get_type h c = TMerge)"

definition get_master :: "heap \<Rightarrow> cid \<Rightarrow> cid option" where
  "get_master h c =
     (if get_type h c = TMerge then master_of (c_value (the_cell h c)) else Some c)"

definition isHyperlink :: "heap \<Rightarrow> cid \<Rightarrow> bool" where
  "isHyperlink h c = (get_type h c = THyperlink)"

definition isMergedTo :: "heap \<Rightarrow> cid \<Rightarrow> cid option \<Rightarrow> bool" where
  "isMergedTo h c master =
     (if get_type h c \<noteq> TMerge then False else master = master_of (c_value (the_cell h c)))"

text \<open>The \<open>hyperlink\<close> getter: \<open>this._value.hyperlink\<close>, a property of \<open>HyperlinkValue\<close>
  alone.\<close>

definition get_hyperlink :: "heap \<Rightarrow> cid \<Rightarrow> error + jsval" where
  "get_hyperlink h c =
     (case c_value (the_cell h c) of
        HyperlinkValue m \<Rightarrow> get_prop h m ''hyperlink''
      | _ \<Rightarrow> Inr JUndefined)"

text \<open>The style accessors \<open>numFmt\<close>, \<open>font\<close>, \<open>alignment\<close>, \<open>border\<close> and \<open>fill\<close> read and
  write the property of that name of \<open>this.style\<close>.\<close>

definition get_style_prop :: "heap \<Rightarrow> cid \<Rightarrow> string \<Rightarrow> error + jsval" where
  "get_style_prop h c f = get_prop h (c_style (the_cell h c)) f"

definition set_style_prop :: "heap \<Rightarrow> cid \<Rightarrow> string \<Rightarrow> jsval \<Rightarrow> unit res" where
  "set_style_prop h c f x = set_prop h (c_style (the_cell h c)) f x"

text \<open>\<open>cell.style = v\<close>: \<open>style\<close> is a plain property of the Cell.\<close>

definition set_style :: "heap \<Rightarrow> cid \<Rightarrow> jsval \<Rightarrow> unit res" where
  "set_style h c v =
     (if \<not> valid_cell h c then Err Dangling h
      else Ok () (upd_cell h c (\<lambda>x. x\<lparr>c_style := v\<rparr>)))"

text \<open>\<open>merge(master)\<close> and \<open>unmerge()\<close>.\<close>

definition merge :: "heap \<Rightarrow> cid \<Rightarrow> cid option \<Rightarrow> unit res" where
  "merge h c master =
     (if \<not> valid_cell h c \<or> (\<exists>a. master = Some a \<and> \<not> valid_cell h a) then Err Dangling h
      else
        (case release_value h (Held c) of
           Err e h1 \<Rightarrow> Err e h1
         | Ok u h1 \<Rightarrow>
             (case create h1 (JTag TMerge) c JUndefined master of
                Err e h2 \<Rightarrow> Err e h2
              | Ok nv h2 \<Rightarrow> Ok () (install h2 c nv))))"

definition unmerge :: "heap \<Rightarrow> cid \<Rightarrow> unit res" where
  "unmerge h c =
     (if \<not> valid_cell h c then Err Dangling h
      else if get_type h c = TMerge then
        (case release_value h (Held c) of
           Err e h1 \<Rightarrow> Err e h1
         | Ok u h1 \<Rightarrow>
             (case create h1 (JTag TNull) c JUndefined None of
                Err e h2 \<Rightarrow> Err e h2
              | Ok nv h2 \<Rightarrow> Ok () (install h2 c nv)))
      else Ok () h)"

text \<open>The \<open>value\<close> getter. A \<open>MergeValue\<close> reads \<open>this._master.value\<close>, the getter of
  another Cell: the first argument bounds the depth of these calls, as the call stack of
  the engine does, and the getter throws a \<open>RangeError\<close> when it is used up. The Hyperlink
  and Formula getters return a new object.\<close>

fun get_value :: "nat \<Rightarrow> heap \<Rightarrow> cid \<Rightarrow> jsval res" where
  "get_value 0 h c = Err RangeError h"
| "get_value (Suc n) h c =
     (if \<not> valid_cell h c then Err Dangling h
      else
        (case c_value (the_cell h c) of
           NullValue m \<Rightarrow> Ok JNull h
         | NumberValue m \<Rightarrow>
             (case get_prop h m ''value'' of Inl e \<Rightarrow> Err e h | Inr x \<Rightarrow> Ok x h)
         | StringValue m \<Rightarrow>
             (case get_prop h m ''value'' of Inl e \<Rightarrow> Err e h | Inr x \<Rightarrow> Ok x h)
         | DateValue m \<Rightarrow>
             (case get_prop h m ''value'' of Inl e \<Rightarrow> Err e h | Inr x \<Rightarrow> Ok x h)
         | HyperlinkValue m \<Rightarrow>
             (case get_prop h m ''text'' of
                Inl e \<Rightarrow> Err e h
              | Inr t \<Rightarrow>
                  (case get_prop h m ''hyperlink'' of
                     Inl e \<Rightarrow> Err e h
                   | Inr l \<Rightarrow>
                       (case alloc h [(''text'', t), (''hyperlink'', l)] of
                          (r, h') \<Rightarrow> Ok r h')))
         | FormulaValue m \<Rightarrow>
             (case get_prop h m ''formula'' of
                Inl e \<Rightarrow> Err e h
              | Inr f \<Rightarrow>
                  (case get_prop h m ''result'' of
                     Inl e \<Rightarrow> Err e h
                   | Inr x \<Rightarrow>
                       (case alloc h [(''formula'', f), (''result'', x)] of
                          (r, h') \<Rightarrow> Ok r h')))
         | MergeValue m None rl \<Rightarrow> Err TypeError h
         | MergeValue m (Some a) rl \<Rightarrow> get_value n h a))"

text \<open>The \<open>value\<close> setter. A cell of type Merge hands the assignment to the setter of its
  master, again under the depth bound; any other cell releases its Value, infers the type
  of the payload and installs the Value the factory creates.\<close>

fun set_value :: "nat \<Rightarrow> heap \<Rightarrow> cid \<Rightarrow> jsval \<Rightarrow> unit res" where
  "set_value 0 h c v = Err RangeError h"
| "set_value (Suc n) h c v =
     (if \<not> valid_cell h c then Err Dangling h
      else if get_type h c = TMerge then
        (case master_of (c_value (the_cell h c)) of
           None \<Rightarrow> Err TypeError h
         | Some a \<Rightarrow> set_value n h a v)
      else
        (case release_value h (Held c) of
           Err e h1 \<Rightarrow> Err e h1
         | Ok u h1 \<Rightarrow>
             (case getType h1 v of
                Inl e \<Rightarrow> Err e h1
              | Inr t \<Rightarrow>
                  (case create h1 (JTag t) c v None of
                     Err e h2 \<Rightarrow> Err e h2
                   | Ok nv h2 \<Rightarrow> Ok () (install h2 c nv)))))"

text \<open>The value setter of \<open>MergeValue\<close> itself, a method of the Value object at place
  \<open>l\<close>, whether a cell holds it or has replaced it: a Cell (\<open>Inr\<close>) becomes the new master,
  the old master (if there is one) losing a reference and the new one gaining one; anything
  else (\<open>Inl\<close>) is assigned to the master's \<open>value\<close>. The setters of the other six classes
  are not modelled (no Cell method calls them): on a Value that is no \<open>MergeValue\<close> the
  model answers with an error and leaves the heap as it is.\<close>

definition MergeValue_set_value :: "nat \<Rightarrow> heap \<Rightarrow> vloc \<Rightarrow> jsval + cid \<Rightarrow> unit res" where
  "MergeValue_set_value n h l arg =
     (if \<not> valid_loc h l \<or> (\<exists>a. arg = Inr a \<and> \<not> valid_cell h a) then Err Dangling h
      else
        (case value_at h l of
           MergeValue m old rl \<Rightarrow>
             (case arg of
                Inr a \<Rightarrow>
                  Ok () (put_value
                           (addMergeRef (case old of None \<Rightarrow> h | Some b \<Rightarrow> releaseMergeRef h b) a)
                           l (MergeValue m (Some a) rl))
              | Inl v \<Rightarrow>
                  (case old of None \<Rightarrow> Err TypeError h | Some b \<Rightarrow> set_value n h b v))
         | _ \<Rightarrow> Err TypeError h))"

text \<open>\<open>_upgradeToHyperlink(hyperlink)\<close>. The text handed to the new Value is
  \<open>this._value._value\<close>, a property no \<open>StringValue\<close> has.\<close>

definition upgradeToHyperlink :: "heap \<Rightarrow> cid \<Rightarrow> jsval \<Rightarrow> unit res" where
  "upgradeToHyperlink h c hyperlink =
     (if \<not> valid_cell h c then Err Dangling h
      else if get_type h c = TString then
        (case alloc h [(''text'', JUndefined), (''hyperlink'', hyperlink)] of
           (p, h1) \<Rightarrow>
             (case create h1 (JTag THyperlink) c p None of
                Err e h2 \<Rightarrow> Err e h2
              | Ok nv h2 \<Rightarrow> Ok () (install h2 c nv)))
      else Ok () h)"

text \<open>The \<open>model\<close> getter: the snapshot of the Value, with the cell's style stored in it.\<close>

definition get_model :: "heap \<Rightarrow> cid \<Rightarrow> jsval res" where
  "get_model h c =
     (if \<not> valid_cell h c then Err Dangling h
      else
        (case set_prop h (model_of (c_value (the_cell h c))) ''style'' (c_style (the_cell h c)) of
           Err e h1 \<Rightarrow> Err e h1
         | Ok u h1 \<Rightarrow> Ok (model_of (c_value (the_cell h c))) h1))"

text \<open>The \<open>model\<close> setter: releases the Value, creates one of the type the snapshot names,
  makes the snapshot its model, and takes the snapshot's style or a new empty one.\<close>

definition set_model :: "heap \<Rightarrow> cid \<Rightarrow> jsval \<Rightarrow> unit res" where
  "set_model h c v =
     (if \<not> valid_cell h c then Err Dangling h
      else
        (case release_value h (Held c) of
           Err e h1 \<Rightarrow> Err e h1
         | Ok u h1 \<Rightarrow>
             (case get_prop h1 v ''type'' of
                Inl e \<Rightarrow> Err e h1
              | Inr ty \<Rightarrow>
                  (case create h1 ty c JUndefined None of
                     Err e h2 \<Rightarrow> Err e h2
                   | Ok nv h2 \<Rightarrow>
                       (case get_prop (install h2 c (with_model nv v))
                               v ''style'' of
                          Inl e \<Rightarrow> Err e (install h2 c (with_model nv v))
                        | Inr st \<Rightarrow>
                            if truthy st then
                              Ok () (upd_cell (install h2 c (with_model nv v))
                                       c (\<lambda>x. x\<lparr>c_style := st\<rparr>))
                            else
                              (case alloc (install h2 c (with_model nv v)) [] of
                                 (s, h4) \<Rightarrow> Ok () (upd_cell h4 c (\<lambda>x. x\<lparr>c_style := s\<rparr>))))))))"

section \<open>CSV rendering, validation and dependencies\<close>

text \<open>The string a value becomes in \<open>"" + v\<close>.\<close>

function show_nat :: "nat \<Rightarrow> string" where
  "show_nat n =
     (if n < 10 then [''0123456789'' ! n]
      else show_nat (n div 10) @ [''0123456789'' ! (n mod 10)])"
  by pat_completeness auto
termination
  by (relation "measure id") auto

definition show_int :: "int \<Rightarrow> string" where
  "show_int i = (if i < 0 then CHR ''-'' # show_nat (nat (- i)) else show_nat (nat i))"

fun js_to_string :: "env \<Rightarrow> jsval \<Rightarrow> string" where
  "js_to_string E JUndefined = ''undefined''"
| "js_to_string E JNull = ''null''"
| "js_to_string E (JBool b) = (if b then ''true'' else ''false'')"
| "js_to_string E (JNum n) = show_int n"
| "js_to_string E (JStr s) = s"
| "js_to_string E (JDate d) = dateToString E d"
| "js_to_string E (JTag t) = tagToString E t"
| "js_to_string E (JObj r) = ''[object Object]''"

text \<open>\<open>s.replace(/"/g, '""')\<close>.\<close>

definition double_quotes :: "string \<Rightarrow> string" where
  "double_quotes s = concat (map (\<lambda>c. if c = CHR 0x22 then [CHR 0x22, CHR 0x22] else [c]) s)"

text \<open>\<open>toCsvString\<close> of the Value of a cell. \<open>StringValue\<close> calls \<open>replace\<close> and
  \<open>DateValue\<close> calls \<open>toISOString\<close> on \<open>this.model.value\<close>, which throws unless the value
  is a string, respectively a Date.\<close>

definition toCsvString :: "env \<Rightarrow> heap \<Rightarrow> cid \<Rightarrow> error + jsval" where
  "toCsvString E h c =
     (case c_value (the_cell h c) of
        NullValue m \<Rightarrow> Inr (JStr [])
      | NumberValue m \<Rightarrow>
          (case get_prop h m ''value'' of
             Inl e \<Rightarrow> Inl e
           | Inr x \<Rightarrow> Inr (JStr (js_to_string E x)))
      | StringValue m \<Rightarrow>
          (case get_prop h m ''value'' of
             Inl e \<Rightarrow> Inl e
           | Inr (JStr s) \<Rightarrow> Inr (JStr ([CHR 0x22] @ double_quotes s @ [CHR 0x22]))
           | Inr _ \<Rightarrow> Inl TypeError)
      | DateValue m \<Rightarrow>
          (case get_prop h m ''value'' of
             Inl e \<Rightarrow> Inl e
           | Inr (JDate d) \<Rightarrow> Inr (JStr (toISOString E d))
           | Inr _ \<Rightarrow> Inl TypeError)
      | HyperlinkValue m \<Rightarrow> get_prop h m ''hyperlink''
      | MergeValue m a rl \<Rightarrow> Inr (JStr [])
      | FormulaValue m \<Rightarrow>
          (case get_prop h m ''result'' of
             Inl e \<Rightarrow> Inl e
           | Inr x \<Rightarrow> Inr (JStr (js_to_string E (if truthy x then x else JStr [])))))"

text \<open>\<open>FormulaValue.prototype.validate\<close>.\<close>

definition validate :: "heap \<Rightarrow> jsval \<Rightarrow> error + unit" where
  "validate h v =
     (case getType h v of
        Inl e \<Rightarrow> Inl e
      | Inr TNull \<Rightarrow> Inr ()
      | Inr TString \<Rightarrow> Inr ()
      | Inr TNumber \<Rightarrow> Inr ()
      | Inr TDate \<Rightarrow> Inr ()
      | Inr _ \<Rightarrow> Inl UnsupportedResultType)"

text \<open>The \<open>dependencies\<close> getter of a \<open>FormulaValue\<close> with model \<open>m\<close>: \<open>match\<close> and
  \<open>replace\<close> are methods of a string, so a formula that is none throws.\<close>

definition dependencies :: "heap \<Rightarrow> jsval \<Rightarrow> error + deps" where
  "dependencies h m =
     (case get_prop h m ''formula'' of
        Inl e \<Rightarrow> Inl e
      | Inr (JStr f) \<Rightarrow> Inr (dependencies_of f)
      | Inr _ \<Rightarrow> Inl TypeError)"

section \<open>The merge-reference invariant and the reachable states\<close>

text \<open>The master a live Merge variant refers to: that of a \<open>MergeValue\<close> on which
  \<open>release()\<close> has not been called. Any other Value object refers to none.\<close>

fun live_master :: "valueobj \<Rightarrow> cid option" where
  "live_master (MergeValue m a rl) = (if rl then None else a)"
| "live_master (NullValue m) = None"
| "live_master (NumberValue m) = None"
| "live_master (StringValue m) = None"
| "live_master (DateValue m) = None"
| "live_master (HyperlinkValue m) = None"
| "live_master (FormulaValue m) = None"

text \<open>The Value objects of a heap, those the cells hold and those they have replaced; and
  the number of live Merge variants among them whose master is cell \<open>a\<close>.\<close>

definition all_values :: "heap \<Rightarrow> valueobj list" where
  "all_values h = map c_value (h_cells h) @ h_detached h"

definition refs_to :: "heap \<Rightarrow> cid \<Rightarrow> nat" where
  "refs_to h a = count_list (map live_master (all_values h)) (Some a)"

definition merge_inv :: "heap \<Rightarrow> bool" where
  "merge_inv h = (\<forall>a < length (h_cells h). c_mergeCount (h_cells h ! a) = int (refs_to h a))"

text \<open>The states a program reaches from the empty heap by its own object literals and
  property assignments, \<open>new Cell\<close>, and the public operations of a Cell and of a Value
  object it got hold of (\<open>release\<close>, and the value setter of a \<open>MergeValue\<close> with a Cell
  as the new master or with any other value). Every rule takes the heap the call leaves,
  whether it returns or throws. The one restriction is on the Value objects on which
  \<open>release()\<close> has been called already: such an object is not released again, neither by
  the program nor by \<open>merge\<close>, \<open>unmerge\<close> or the model setter of the cell that still
  holds it, and no Cell is assigned to it.\<close>

inductive reach :: "env \<Rightarrow> heap \<Rightarrow> bool" for E :: env where
  r_start: "reach E \<lparr>h_objs = [], h_cells = [], h_detached = []\<rparr>"
| r_alloc: "reach E h \<Longrightarrow> reach E (snd (alloc h ob))"
| r_set_prop: "reach E h \<Longrightarrow> reach E (heap_of (set_prop h v f x))"
| r_set_style: "reach E h \<Longrightarrow> reach E (heap_of (set_style h c v))"
| r_new_Cell: "reach E h \<Longrightarrow> reach E (heap_of (new_Cell E h row address))"
| r_merge: "reach E h \<Longrightarrow> \<not> released (value_at h (Held c)) \<Longrightarrow>
     reach E (heap_of (merge h c master))"
| r_unmerge: "reach E h \<Longrightarrow> \<not> released (value_at h (Held c)) \<Longrightarrow>
     reach E (heap_of (unmerge h c))"
| r_set_value: "reach E h \<Longrightarrow> reach E (heap_of (set_value n h c v))"
| r_set_model: "reach E h \<Longrightarrow> \<not> released (value_at h (Held c)) \<Longrightarrow>
     reach E (heap_of (set_model h c v))"
| r_release: "reach E h \<Longrightarrow> valid_loc h l \<Longrightarrow> \<not> released (value_at h l) \<Longrightarrow>
     reach E (heap_of (release_value h l))"
| r_retarget: "reach E h \<Longrightarrow> \<not> released (value_at h l) \<Longrightarrow>
     reach E (heap_of (MergeValue_set_value n h l (Inr a)))"
| r_forward: "reach E h \<Longrightarrow> reach E (heap_of (MergeValue_set_value n h l (Inl v)))"
| r_upgrade: "reach E h \<Longrightarrow> reach E (heap_of (upgradeToHyperlink h c k))"
| r_get_value: "reach E h \<Longrightarrow> reach E (heap_of (get_value n h c))"
| r_get_model: "reach E h \<Longrightarrow> reach E (heap_of (get_model h c))"
| r_get_row: "reach E h \<Longrightarrow> reach E (heap_of (get_row h c))"
| r_get_col: "reach E h \<Longrightarrow> reach E (heap_of (get_col E h c))"

text \<open>What the proof of the invariant carries along: every master a live Merge variant
  refers to is a cell of the heap, and every \<open>MergeValue\<close> a cell has replaced has been
  released.\<close>

definition masters_valid :: "heap \<Rightarrow> bool" where
  "masters_valid h =
     (\<forall>c < length (h_cells h). \<forall>a. live_master (c_value (h_cells h ! c)) = Some a \<longrightarrow>
        a < length (h_cells h))"

definition detached_dead :: "heap \<Rightarrow> bool" where
  "detached_dead h = (\<forall>v \<in> set (h_detached h). kind v = TMerge \<longrightarrow> released v)"

definition good :: "heap \<Rightarrow> bool" where
  "good h = (merge_inv h \<and> masters_valid h \<and> detached_dead h)"



section \<open>Example heaps\<close>

text \<open>An environment for the examples: every address is valid, and the conversions the
  examples do not use are trivial.\<close>

definition E0 :: env where
  "E0 = \<lparr>validateAddress = (\<lambda>a. True), l2n = (\<lambda>s. int (length s)),
          toISOString = (\<lambda>d. []), dateToString = (\<lambda>d. []), tagToString = (\<lambda>t. [])\<rparr>"

text \<open>A heap with the Row object alone; then cell 0, \<open>new Cell(row, "A1")\<close>; then cell 1,
  \<open>new Cell(row, "B1")\<close>; then cell 1 merged onto cell 0.\<close>

definition h_row :: heap where
  "h_row = \<lparr>h_objs = [[]], h_cells = [], h_detached = []\<rparr>"

definition h_A :: heap where
  "h_A = heap_of (new_Cell E0 h_row (JObj 0) ''A1'')"

definition h_AB :: heap where
  "h_AB = heap_of (new_Cell E0 h_A (JObj 0) ''B1'')"

definition h_merged :: heap where
  "h_merged = heap_of (merge h_AB 1 (Some 0))"

text \<open>The payloads called plain scalars: \<open>null\<close>, a string, a number, a Date.\<close>

fun plain_scalar :: "jsval \<Rightarrow> bool" where
  "plain_scalar JNull = True"
| "plain_scalar (JStr s) = True"
| "plain_scalar (JNum n) = True"
| "plain_scalar (JDate d) = True"
| "plain_scalar JUndefined = False"
| "plain_scalar (JBool b) = False"
| "plain_scalar (JTag t) = False"
| "plain_scalar (JObj r) = False"

text \<open>The payloads \<open>{text: "a", hyperlink: "b"}\<close>, \<open>{formula: "A1+1"}\<close>,
  \<open>{text: "", hyperlink: "b"}\<close> and \<open>{text: "a", hyperlink: "b", formula: "A1"}\<close>.\<close>

definition h_payloads :: heap where
  "h_payloads =
     \<lparr>h_objs = [[(''text'', JStr ''a''), (''hyperlink'', JStr ''b'')],
                [(''formula'', JStr ''A1+1'')],
                [(''text'', JStr []), (''hyperlink'', JStr ''b'')],
                [(''text'', JStr ''a''), (''hyperlink'', JStr ''b''), (''formula'', JStr ''A1'')]],
      h_cells = [], h_detached = []\<rparr>"

text \<open>Cell 0 and, at address 3, the payload \<open>{formula: "A1-A1", result: 0}\<close>, respectively
  \<open>{text: "x", hyperlink: "http://y"}\<close>.\<close>

definition h_A_formula :: heap where
  "h_A_formula = snd (alloc h_A [(''formula'', JStr ''A1-A1''), (''result'', JNum 0)])"

definition h_A_link :: heap where
  "h_A_link = snd (alloc h_A [(''text'', JStr ''x''), (''hyperlink'', JStr ''http://y'')])"

text \<open>Cell 0 holding the number 42; the merged cells with, at address 6, a snapshot
  \<open>{type: "bogus"}\<close> whose type no constructor is registered for.\<close>

definition h_A42 :: heap where
  "h_A42 = heap_of (set_value 1 h_A 0 (JNum 42))"

definition h_merged_bad :: heap where
  "h_merged_bad = snd (alloc h_merged [(''type'', JStr ''bogus'')])"

text \<open>The merged cells after \<open>m = B.model\<close>, and after \<open>B.model = m\<close>.\<close>

definition h_merged_read :: heap where
  "h_merged_read = heap_of (get_model h_merged 1)"

definition h_reimported :: heap where
  "h_reimported = heap_of (set_model h_merged_read 1 (JObj 5))"

text \<open>The cell holding 42 after \<open>m = cell.model; m.type = Cell.Types.String\<close>, and after
  \<open>cell.style = null\<close>.\<close>

definition h_A42_retyped :: heap where
  "h_A42_retyped = heap_of (set_prop (heap_of (get_model h_A42 0)) (JObj 3) ''type'' (JTag TString))"

definition h_A42_unstyled :: heap where
  "h_A42_unstyled = heap_of (set_style h_A42 0 JNull)"

text \<open>Cell 0 merged onto itself; and, in the heap where cell 1 is a Merge without a
  master, cell 0 merged onto cell 1.\<close>

definition h_self :: heap where
  "h_self = heap_of (merge h_A 0 (Some 0))"

definition h_on_Merge :: heap where
  "h_on_Merge = heap_of (merge h_reimported 0 (Some 1))"

text \<open>The merged cells and a third cell 2, \<open>new Cell(row, "C1")\<close>; and the heap the
  rejected import \<open>B.model = {type: "bogus"}\<close> leaves.\<close>

definition h_ABC :: heap where
  "h_ABC = heap_of (new_Cell E0 h_merged (JObj 0) ''C1'')"

definition h_failed :: heap where
  "h_failed = heap_of (set_model h_merged_bad 1 (JObj 6))"

text \<open>The three cells after \<open>B.unmerge()\<close>, and after a Cell has then been assigned to the
  \<open>MergeValue\<close> that \<open>B\<close> held before.\<close>

definition h_unmerged :: heap where
  "h_unmerged = heap_of (unmerge h_ABC 1)"

definition h_stale :: heap where
  "h_stale = heap_of (MergeValue_set_value 0 h_unmerged (Detached 1) (Inr 2))"

section \<open>Lemmas about the matcher\<close>

lemma rx_match_suffix:
  "rx_match r s = Some rest \<Longrightarrow> \<exists>pre. s = pre @ rest"
proof (induction r s arbitrary: rest rule: rx_match.induct)
  case (1 s)
  then show ?case by simp
next
  case (2 c lo hi rs)
  then show ?case by (simp split: if_splits)
next
  case (3 c lo hi rs x xs)
  then show ?case
    by (auto split: if_splits option.splits)
next
  case (4 as rs s)
  then show ?case by (auto split: option.splits)
qed

lemma rx_match_split:
  assumes "rx_match r s = Some rest"
  shows "take (length s - length rest) s @ rest = s" "drop (length s - length rest) s = rest"
proof -
  from rx_match_suffix[OF assms] obtain pre where "s = pre @ rest" by blast
  then show "take (length s - length rest) s @ rest = s" "drop (length s - length rest) s = rest"
    by simp_all
qed

lemmas rx_defs = range_rx_def cell_rx_def cell_ref_def sheet_prefix_def


text \<open>The matcher against the words of a pattern: what it matches is a word of the
  pattern, and it finds a match wherever a word of the pattern starts.\<close>

lemma rx_match_sound:
  "rx_match r s = Some rest \<Longrightarrow> \<exists>w. s = w @ rest \<and> rx_lang r w"
proof (induction r s arbitrary: rest rule: rx_match.induct)
  case (1 s)
  then show ?case by simp
next
  case (2 c lo hi rs)
  then show ?case by (auto split: if_splits option.splits)
next
  case (3 c lo hi rs x xs)
  show ?case
  proof (cases "may_take hi \<and> in_cls c x")
    case True
    show ?thesis
    proof (cases "rx_match (A (Rep c (lo - 1) (less_one hi)) # rs) xs")
      case None
      with "3.prems" True have lo: "lo = 0" and m: "rx_match rs (x # xs) = Some rest"
        by (auto split: if_splits)
      from "3.IH"(2)[OF True None lo m] obtain w where w: "x # xs = w @ rest" "rx_lang rs w" by blast
      have "rx_lang (A (Rep c lo hi) # rs) w"
        apply simp
        apply (rule exI[of _ "[]"], rule exI[of _ w])
        using w lo by (cases hi) auto
      with w show ?thesis by blast
    next
      case (Some r')
      with "3.prems" True have r': "r' = rest" by simp
      from "3.IH"(1)[OF True] Some r' obtain w where w: "xs = w @ rest"
        "rx_lang (A (Rep c (lo - 1) (less_one hi)) # rs) w" by blast
      then obtain u v where uv: "w = u @ v" "list_all (in_cls c) u" "lo - 1 \<le> length u"
        "(case less_one hi of None \<Rightarrow> True | Some k \<Rightarrow> length u \<le> k)" "rx_lang rs v"
        by auto
      have "rx_lang (A (Rep c lo hi) # rs) (x # w)"
        apply simp
        apply (rule exI[of _ "x # u"], rule exI[of _ v])
        using uv True by (cases hi) auto
      with w show ?thesis by (intro exI[of _ "x # w"]) simp
    qed
  next
    case False
    with "3.prems" have lo: "lo = 0" and m: "rx_match rs (x # xs) = Some rest"
      by (auto split: if_splits)
    from "3.IH"(3)[OF False lo m] obtain w where w: "x # xs = w @ rest" "rx_lang rs w" by blast
    have "rx_lang (A (Rep c lo hi) # rs) w"
      apply simp
      apply (rule exI[of _ "[]"], rule exI[of _ w])
      using w lo by (cases hi) auto
    with w show ?thesis by blast
  qed
next
  case (4 as rs s)
  then show ?case by (auto split: option.splits)
qed

lemma rx_match_complete:
  "rx_lang r w \<Longrightarrow> s = w @ t \<Longrightarrow> rx_match r s \<noteq> None"
proof (induction r s arbitrary: w t rule: rx_match.induct)
  case (1 s)
  then show ?case by simp
next
  case (2 c lo hi rs)
  then show ?case by auto
next
  case (3 c lo hi rs x xs)
  from "3.prems"(1) obtain u v where uv: "w = u @ v" "list_all (in_cls c) u" "lo \<le> length u"
        "(case hi of None \<Rightarrow> True | Some k \<Rightarrow> length u \<le> k)" "rx_lang rs v"
    by auto
  show ?case
  proof (cases u)
    case Nil
    with uv have lo: "lo = 0" and v: "rx_lang rs w" by auto
    show ?thesis
    proof (cases "may_take hi \<and> in_cls c x")
      case True
      show ?thesis
      proof (cases "rx_match (A (Rep c (lo - 1) (less_one hi)) # rs) xs")
        case None
        from "3.IH"(2)[OF True None lo v "3.prems"(2)] show ?thesis using True None lo by simp
      next
        case (Some a)
        then show ?thesis using True by simp
      qed
    next
      case False
      from "3.IH"(3)[OF False lo v "3.prems"(2)] show ?thesis using False lo by auto
    qed
  next
    case (Cons y u')
    with uv "3.prems"(2) have yx: "y = x" and xs: "xs = (u' @ v) @ t" by auto
    from Cons uv yx have T: "may_take hi \<and> in_cls c x" by (cases hi) auto
    have "rx_lang (A (Rep c (lo - 1) (less_one hi)) # rs) (u' @ v)"
      apply simp
      apply (rule exI[of _ u'], rule exI[of _ v])
      using uv Cons by (cases hi) auto
    from "3.IH"(1)[OF T this xs] show ?thesis using T by auto
  qed
next
  case (4 as rs s)
  show ?case
  proof (cases "rx_match (map A as @ rs) s")
    case None
    with "4.IH"(1)[OF _ "4.prems"(2)] have "\<not> rx_lang (map A as @ rs) w" by blast
    with "4.prems"(1) have "rx_lang rs w" by simp
    from "4.IH"(2)[OF None this "4.prems"(2)] show ?thesis using None by simp
  next
    case (Some a)
    then show ?thesis by simp
  qed
qed

lemma lit_one: "(list_all (in_cls (Lit d)) u \<and> Suc 0 \<le> length u \<and> length u \<le> Suc 0) = (u = [d])"
  by (cases u) auto

lemma lang_colon:
  "rx_lang (A (Rep (Lit d) 1 (Some 1)) # rs) w = (\<exists>v. w = d # v \<and> rx_lang rs v)"
proof
  assume "rx_lang (A (Rep (Lit d) 1 (Some 1)) # rs) w"
  then obtain u v where uv: "w = u @ v" "list_all (in_cls (Lit d)) u \<and> Suc 0 \<le> length u \<and> length u \<le> Suc 0"
     "rx_lang rs v" by auto
  from uv(2) have "u = [d]" unfolding lit_one .
  with uv show "\<exists>v. w = d # v \<and> rx_lang rs v" by simp
next
  assume "\<exists>v. w = d # v \<and> rx_lang rs v"
  then obtain v where v: "w = [d] @ v" "rx_lang rs v" by auto
  show "rx_lang (A (Rep (Lit d) 1 (Some 1)) # rs) w"
    apply (simp only: rx_lang.simps)
    apply (rule exI[of _ "[d]"], rule exI[of _ v])
    using v by simp
qed

lemma lang_cell_ref:
  "rx_lang (cell_ref @ rs) w =
     (\<exists>c d v. w = c @ d @ v \<and> col_letters c \<and> row_digits d \<and> rx_lang rs v)"
proof
  assume "rx_lang (cell_ref @ rs) w"
  then obtain c v0 where c: "w = c @ v0" "col_letters c" "rx_lang (A (Rep Digit 1 (Some 4)) # rs) v0"
    by (auto simp: cell_ref_def col_letters_def)
  from c(3) obtain d v where d: "v0 = d @ v" "row_digits d" "rx_lang rs v"
    by (auto simp: row_digits_def)
  from c d show "\<exists>c d v. w = c @ d @ v \<and> col_letters c \<and> row_digits d \<and> rx_lang rs v" by blast
next
  assume "\<exists>c d v. w = c @ d @ v \<and> col_letters c \<and> row_digits d \<and> rx_lang rs v"
  then obtain c d v where x: "w = c @ d @ v" "col_letters c" "row_digits d" "rx_lang rs v" by blast
  have "rx_lang (A (Rep Digit 1 (Some 4)) # rs) (d @ v)"
    apply (simp only: rx_lang.simps)
    apply (rule exI[of _ d], rule exI[of _ v])
    using x by (simp add: row_digits_def)
  then show "rx_lang (cell_ref @ rs) w"
    unfolding cell_ref_def
    apply (simp only: rx_lang.simps append_Cons append_Nil)
    apply (rule exI[of _ c], rule exI[of _ "d @ v"])
    using x by (simp add: col_letters_def)
qed

lemma lang_sheet:
  "rx_lang (sheet_prefix # rs) w = (\<exists>p v. w = p @ v \<and> sheet_part p \<and> rx_lang rs v)"
proof
  assume "rx_lang (sheet_prefix # rs) w"
  then consider "rx_lang (A (Rep AlNum 1 None) # A (Rep (Lit (CHR ''!'')) 1 (Some 1)) # rs) w"
    | "rx_lang rs w"
    by (auto simp: sheet_prefix_def simp del: rx_lang.simps(2))
  then show "\<exists>p v. w = p @ v \<and> sheet_part p \<and> rx_lang rs v"
  proof cases
    case 1
    then obtain n v0 where n: "w = n @ v0" "list_all (in_cls AlNum) n" "n \<noteq> []"
      "rx_lang (A (Rep (Lit (CHR ''!'')) 1 (Some 1)) # rs) v0"
      by (simp del: rx_lang.simps(2) add: rx_lang.simps(2)[of AlNum]) force
    from n(4) obtain v where v: "v0 = CHR ''!'' # v" "rx_lang rs v" unfolding lang_colon by blast
    have "sheet_part (n @ ''!'')" using n by (auto simp: sheet_part_def)
    moreover have "w = (n @ ''!'') @ v" using n v by simp
    ultimately show ?thesis using v by blast
  next
    case 2
    have "sheet_part []" by (simp add: sheet_part_def)
    with 2 show ?thesis by (intro exI[of _ "[]"] exI[of _ w]) simp
  qed
next
  assume "\<exists>p v. w = p @ v \<and> sheet_part p \<and> rx_lang rs v"
  then obtain p v where x: "w = p @ v" "sheet_part p" "rx_lang rs v" by blast
  show "rx_lang (sheet_prefix # rs) w"
  proof (cases "p = []")
    case True
    with x show ?thesis by (simp add: sheet_prefix_def)
  next
    case False
    with x obtain n where n: "n \<noteq> []" "list_all (in_cls AlNum) n" "p = n @ ''!''"
      by (auto simp: sheet_part_def)
    have "rx_lang (A (Rep (Lit (CHR ''!'')) 1 (Some 1)) # rs) (CHR ''!'' # v)"
      unfolding lang_colon using x by simp
    then have "rx_lang (A (Rep AlNum 1 None) # A (Rep (Lit (CHR ''!'')) 1 (Some 1)) # rs) w"
      apply (simp only: rx_lang.simps(2)[of AlNum])
      apply (rule exI[of _ n], rule exI[of _ "CHR ''!'' # v"])
      using n x by (cases n) simp_all
    then show ?thesis by (simp add: sheet_prefix_def del: rx_lang.simps(2))
  qed
qed

lemma lang_range: "rx_lang range_rx w = range_shape w"
proof -
  have e: "range_rx = sheet_prefix # cell_ref @ A (Rep (Lit (CHR '':'')) 1 (Some 1)) # cell_ref @ []"
    by (simp add: range_rx_def)
  show ?thesis
  proof
    assume "rx_lang range_rx w"
    then obtain p v1 where p: "w = p @ v1" "sheet_part p"
      "rx_lang (cell_ref @ A (Rep (Lit (CHR '':'')) 1 (Some 1)) # cell_ref @ []) v1"
      unfolding e lang_sheet by blast
    from p(3) obtain c d v2 where c: "v1 = c @ d @ v2" "col_letters c" "row_digits d"
      "rx_lang (A (Rep (Lit (CHR '':'')) 1 (Some 1)) # cell_ref @ []) v2"
      unfolding lang_cell_ref by blast
    from c(4) obtain v3 where v3: "v2 = CHR '':'' # v3" "rx_lang (cell_ref @ []) v3"
      unfolding lang_colon by blast
    from v3(2) obtain c' d' where c': "v3 = c' @ d'" "col_letters c'" "row_digits d'"
      unfolding lang_cell_ref by auto
    have "w = p @ c @ d @ '':'' @ c' @ d'" using p c v3 c' by simp
    with p c c' show "range_shape w" unfolding range_shape_def by blast
  next
    assume "range_shape w"
    then obtain p c d c' d' where x: "w = p @ c @ d @ '':'' @ c' @ d'" "sheet_part p"
      "col_letters c" "row_digits d" "col_letters c'" "row_digits d'"
      unfolding range_shape_def by blast
    have 1: "rx_lang (cell_ref @ []) (c' @ d')"
      unfolding lang_cell_ref using x by (intro exI[of _ c'] exI[of _ d'] exI[of _ "[]"]) simp
    then have 2: "rx_lang (A (Rep (Lit (CHR '':'')) 1 (Some 1)) # cell_ref @ []) ('':'' @ c' @ d')"
      unfolding lang_colon by simp
    have 3: "rx_lang (cell_ref @ A (Rep (Lit (CHR '':'')) 1 (Some 1)) # cell_ref @ []) (c @ d @ '':'' @ c' @ d')"
      unfolding lang_cell_ref[of "A (Rep (Lit (CHR '':'')) 1 (Some 1)) # cell_ref @ []"]
      using x 2 by (intro exI[of _ c] exI[of _ d] exI[of _ "'':'' @ c' @ d'"]) simp
    show "rx_lang range_rx w"
      unfolding e lang_sheet
      using x 3 by (intro exI[of _ p] exI[of _ "c @ d @ '':'' @ c' @ d'"]) simp
  qed
qed

lemma lang_cell: "rx_lang cell_rx w = cell_shape w"
proof -
  have e: "cell_rx = sheet_prefix # cell_ref @ []"
    by (simp add: cell_rx_def)
  show ?thesis
  proof
    assume "rx_lang cell_rx w"
    then obtain p v1 where p: "w = p @ v1" "sheet_part p" "rx_lang (cell_ref @ []) v1"
      unfolding e lang_sheet by blast
    from p(3) obtain c d where c: "v1 = c @ d" "col_letters c" "row_digits d"
      unfolding lang_cell_ref by auto
    have "w = p @ c @ d" using p c by simp
    with p c show "cell_shape w" unfolding cell_shape_def by blast
  next
    assume "cell_shape w"
    then obtain p c d where x: "w = p @ c @ d" "sheet_part p" "col_letters c" "row_digits d"
      unfolding cell_shape_def by blast
    have 1: "rx_lang (cell_ref @ []) (c @ d)"
      unfolding lang_cell_ref using x by (intro exI[of _ c] exI[of _ d] exI[of _ "[]"]) simp
    show "rx_lang cell_rx w"
      unfolding e lang_sheet
      using x 1 by (intro exI[of _ p] exI[of _ "c @ d"]) simp
  qed
qed

text \<open>\<open>match\<close> and \<open>replace\<close> with the global flag extract what \<open>extracted\<close> describes,
  for a matcher that finds the longest word of a shape wherever one starts.\<close>

lemma extracted_shift:
  assumes "extracted L t ms rem" and "\<forall>w u. x # t = w @ u \<longrightarrow> \<not> L w"
  shows "extracted L (x # t) ms (x # rem)"
  using assms(1)
proof (cases rule: extracted.cases)
  case ex_none
  have "\<forall>k w u. drop k (x # t) = w @ u \<longrightarrow> \<not> L w"
  proof (intro allI)
    fix k w u
    show "drop k (x # t) = w @ u \<longrightarrow> \<not> L w"
      using assms(2) ex_none(3) by (cases k) auto
  qed
  from extracted.ex_none[of "x # t" L, OF this] ex_none show ?thesis by simp
next
  case (ex_match k g m rest ms' rem')
  have a: "\<forall>i w u. i < Suc k \<longrightarrow> drop i (x # t) = w @ u \<longrightarrow> \<not> L w"
  proof (intro allI)
    fix i w u
    show "i < Suc k \<longrightarrow> drop i (x # t) = w @ u \<longrightarrow> \<not> L w"
      using assms(2) ex_match(3) by (cases i) auto
  qed
  have b: "x # t = (x # g) @ m @ rest" using ex_match by simp
  have c: "length (x # g) = Suc k" using ex_match by simp
  from extracted.ex_match[of "Suc k" "x # t" L "x # g" m rest ms' rem', OF a b c ex_match(6,7,8)]
  show ?thesis using ex_match by simp
qed

lemma scan_strip_extracted:
  assumes sound: "\<And>t rest. rx_match r t = Some rest \<Longrightarrow>
      \<exists>m. t = m @ rest \<and> L m \<and> m \<noteq> [] \<and> (\<forall>w u. t = w @ u \<longrightarrow> L w \<longrightarrow> length w \<le> length m)"
    and complete: "\<And>w u. L w \<Longrightarrow> rx_match r (w @ u) \<noteq> None"
  shows "extracted L s (scan r s) (strip r s)"
  using sound complete
proof (induction r s rule: scan.induct)
  case (1 r s)
  note sound = "1.prems"(1) and complete = "1.prems"(2)
  show ?case
  proof (cases "rx_match r s")
    case None
    have no: "\<forall>w u. s = w @ u \<longrightarrow> \<not> L w"
    proof (intro allI impI)
      fix w u
      assume e: "s = w @ u"
      show "\<not> L w"
      proof
        assume "L w"
        from complete[OF this, of u] None e show False by simp
      qed
    qed
    show ?thesis
    proof (cases s)
      case Nil
      have "\<forall>k w u. drop k ([]::string) = w @ u \<longrightarrow> \<not> L w" using no Nil by auto
      from ex_none[of "[]" L, OF this] show ?thesis
        using None Nil by (subst strip.simps, subst scan.simps) simp
    next
      case (Cons x t)
      then have "s \<noteq> []" by simp
      from "1.IH"(1)[OF None this sound complete] Cons have ih: "extracted L t (scan r t) (strip r t)" by simp
      from extracted_shift[OF ih] no Cons have "extracted L (x # t) (scan r t) (x # strip r t)" by simp
      then show ?thesis using None Cons by (subst strip.simps, subst scan.simps) simp
    qed
  next
    case (Some rest)
    from sound[OF Some] obtain m where m: "s = m @ rest" "L m" "m \<noteq> []"
      "\<forall>w u. s = w @ u \<longrightarrow> L w \<longrightarrow> length w \<le> length m" by blast
    then have ne: "s \<noteq> []" by simp
    have len: "length s - length rest = length m" using m by simp
    have lpos: "0 < length m" using m by simp
    from "1.IH"(2)[OF Some ne sound complete] have ih: "extracted L rest (scan r rest) (strip r rest)"
      using len m lpos by (simp add: max_def)
    have a: "\<forall>i w u. i < (0::nat) \<longrightarrow> drop i s = w @ u \<longrightarrow> \<not> L w" by simp
    have b: "s = [] @ m @ rest" using m by simp
    have c: "\<forall>w u. m @ rest = w @ u \<longrightarrow> L w \<longrightarrow> length w \<le> length m" using m by simp
    from ex_match[of 0 s L "[]" m rest "scan r rest" "strip r rest", OF a b _ m(2) c ih]
    have g: "extracted L s (m # scan r rest) (strip r rest)" by simp
    have d: "drop (max 1 (length s - length rest)) s = rest"
      and d': "drop (length s - length rest) s = rest"
      and t: "take (length s - length rest) s = m"
      and z: "(length s - length rest = 0) = False"
      using len m(1) lpos by (simp_all add: max_def Suc_le_eq)
    have sc: "scan r s = m # scan r rest"
      by (subst scan.simps) (simp only: Some option.case ne if_False d t)
    have st: "strip r s = strip r rest"
      by (subst strip.simps) (simp only: Some option.case ne if_False d' z)
    from g sc st show ?thesis by simp
  qed
qed

lemma extracted_deterministic:
  "extracted L s ms rem \<Longrightarrow> extracted L s ms' rem' \<Longrightarrow> ms = ms' \<and> rem = rem'"
proof (induction arbitrary: ms' rem' rule: extracted.induct)
  case (ex_none s)
  from ex_none(2) show ?case
  proof (cases rule: extracted.cases)
    case ex_none
    then show ?thesis by simp
  next
    case (ex_match k g m rest ms rem)
    then have "drop k s = m @ rest" by simp
    with ex_none(1) ex_match show ?thesis by blast
  qed
next
  case (ex_match k s g m rest ms rem)
  from ex_match(8) show ?case
  proof (cases rule: extracted.cases)
    case ex_none
    from ex_match have "drop k s = m @ rest" by simp
    with ex_none ex_match(4) show ?thesis by blast
  next
    case (ex_match k' g' m' rest' ms'' rem'')
    note o = ex_match
    have dk: "drop k s = m @ rest" using \<open>s = g @ m @ rest\<close> \<open>length g = k\<close> by simp
    have dk': "drop k' s = m' @ rest'" using o by simp
    have "\<not> k < k'" using o(3) dk \<open>L m\<close> by blast
    moreover have "\<not> k' < k" using \<open>\<forall>i w u. i < k \<longrightarrow> drop i s = w @ u \<longrightarrow> \<not> L w\<close> dk' o(6) by blast
    ultimately have kk: "k' = k" by simp
    have gg: "g' = g" using o(4,5) \<open>s = g @ m @ rest\<close> \<open>length g = k\<close> kk by auto
    have e: "m @ rest = m' @ rest'" using dk dk' kk by simp
    have l1: "length m' \<le> length m"
      using \<open>\<forall>w u. m @ rest = w @ u \<longrightarrow> L w \<longrightarrow> length w \<le> length m\<close> e o(6) by blast
    have l2: "length m \<le> length m'"
      using o(7) e \<open>L m\<close> by metis
    from l1 l2 e have mm: "m' = m \<and> rest' = rest" by (metis append_eq_append_conv le_antisym)
    with o(8) ex_match.IH[of ms'' rem''] have "ms = ms'' \<and> rem = rem''" by simp
    with mm gg o show ?thesis by simp
  qed
qed

text \<open>The two patterns end in a run of digits, which the matcher takes as long as it
  may; what comes before the run can be read in one way only. So the match is the longest
  reference that starts at its place.\<close>

lemma last_atom_total: "rx_match [A (Rep c 0 hi)] s \<noteq> None"
  by (induction s arbitrary: hi) (auto split: option.splits)

lemma last_atom_greedy:
  "rx_match [A (Rep c lo hi)] s = Some rest \<Longrightarrow> s = u @ t \<Longrightarrow> list_all (in_cls c) u \<Longrightarrow>
   (case hi of None \<Rightarrow> True | Some k \<Rightarrow> length u \<le> k) \<Longrightarrow>
   length u \<le> length s - length rest"
proof (induction s arbitrary: lo hi u rest)
  case Nil
  then show ?case by simp
next
  case (Cons x xs)
  show ?case
  proof (cases u)
    case Nil
    then show ?thesis by simp
  next
    case (Cons y u')
    with Cons.prems have yx: "y = x" and xs: "xs = u' @ t" and cx: "in_cls c x"
      and all: "list_all (in_cls c) u'" by auto
    from Cons.prems(4) Cons have mt: "may_take hi"
      and hi': "(case less_one hi of None \<Rightarrow> True | Some k \<Rightarrow> length u' \<le> k)"
      by (cases hi; auto)+
    show ?thesis
    proof (cases "rx_match [A (Rep c (lo - 1) (less_one hi))] xs")
      case None
      with Cons.prems(1) mt cx have "lo = 0" by (auto split: if_splits)
      with None last_atom_total[of c "less_one hi" xs] show ?thesis by simp
    next
      case (Some r')
      with Cons.prems(1) mt cx have r': "r' = rest" by simp
      from Cons.IH[OF Some[unfolded r'] xs all hi'] have "length u' \<le> length xs - length rest" .
      moreover from rx_match_suffix[OF Some[unfolded r']] have "length rest \<le> length xs" by auto
      ultimately show ?thesis using Cons by simp
    qed
  qed
qed

lemma rx_match_append:
  "rx_match r s = Some rest \<Longrightarrow> r = r1 @ r2 \<Longrightarrow>
   \<exists>w mid. s = w @ mid \<and> rx_lang r1 w \<and> rx_match r2 mid = Some rest"
proof (induction r s arbitrary: rest r1 rule: rx_match.induct)
  case (1 s)
  then show ?case by simp
next
  case (2 c lo hi rs)
  show ?case
  proof (cases r1)
    case Nil
    with "2.prems" show ?thesis by (intro exI[of _ "[]"]) simp
  next
    case (Cons a r1')
    with "2.prems" have a: "a = A (Rep c lo hi)" and rs: "rs = r1' @ r2" by auto
    from "2.prems"(1) have lo: "lo = 0" and m: "rx_match rs [] = Some rest"
      by (auto split: if_splits)
    from "2.IH"[OF lo m rs] have "rx_lang r1' []" "rx_match r2 [] = Some rest" by auto
    then have "rx_lang r1 []" using Cons a lo by (cases hi) auto
    with \<open>rx_match r2 [] = Some rest\<close> show ?thesis by (intro exI[of _ "[]"]) simp
  qed
next
  case (3 c lo hi rs x xs)
  show ?case
  proof (cases r1)
    case Nil
    with "3.prems" show ?thesis by (intro exI[of _ "[]"] exI[of _ "x # xs"]) simp
  next
    case (Cons a r1')
    with "3.prems" have a: "a = A (Rep c lo hi)" and rs: "rs = r1' @ r2" by auto
    have skip: "lo = 0 \<Longrightarrow> rx_match rs (x # xs) = Some rest \<Longrightarrow>
       (\<And>rest r1. rx_match rs (x # xs) = Some rest \<Longrightarrow> rs = r1 @ r2 \<Longrightarrow>
          \<exists>w mid. x # xs = w @ mid \<and> rx_lang r1 w \<and> rx_match r2 mid = Some rest) \<Longrightarrow> ?thesis"
    proof -
      assume lo: "lo = 0" and m: "rx_match rs (x # xs) = Some rest"
        and ih: "\<And>rest r1. rx_match rs (x # xs) = Some rest \<Longrightarrow> rs = r1 @ r2 \<Longrightarrow>
          \<exists>w mid. x # xs = w @ mid \<and> rx_lang r1 w \<and> rx_match r2 mid = Some rest"
      from ih[OF m rs] obtain w mid where w: "x # xs = w @ mid" "rx_lang r1' w"
        "rx_match r2 mid = Some rest" by blast
      have "rx_lang r1 w"
        unfolding Cons a
        apply (simp only: rx_lang.simps)
        apply (rule exI[of _ "[]"], rule exI[of _ w])
        using w lo by (cases hi) auto
      with w show ?thesis by blast
    qed
    show ?thesis
    proof (cases "may_take hi \<and> in_cls c x")
      case True
      show ?thesis
      proof (cases "rx_match (A (Rep c (lo - 1) (less_one hi)) # rs) xs")
        case None
        with "3.prems"(1) True have lo: "lo = 0" and m: "rx_match rs (x # xs) = Some rest"
          by (auto split: if_splits)
        show ?thesis by (rule skip[OF lo m]) (rule "3.IH"(2)[OF True None lo])
      next
        case (Some r')
        with "3.prems"(1) True have r': "r' = rest" by simp
        have e: "A (Rep c (lo - 1) (less_one hi)) # rs = (A (Rep c (lo - 1) (less_one hi)) # r1') @ r2"
          using rs by simp
        from "3.IH"(1)[OF True Some[unfolded r'] e] obtain w mid where w: "xs = w @ mid"
          "rx_lang (A (Rep c (lo - 1) (less_one hi)) # r1') w" "rx_match r2 mid = Some rest"
          by blast
        from w(2) obtain u v where uv: "w = u @ v" "list_all (in_cls c) u" "lo - 1 \<le> length u"
          "(case less_one hi of None \<Rightarrow> True | Some k \<Rightarrow> length u \<le> k)" "rx_lang r1' v"
          by auto
        have "rx_lang r1 (x # w)"
          unfolding Cons a
          apply (simp only: rx_lang.simps)
          apply (rule exI[of _ "x # u"], rule exI[of _ v])
          using uv True by (cases hi) auto
        with w show ?thesis by (intro exI[of _ "x # w"] exI[of _ mid]) simp
      qed
    next
      case False
      with "3.prems"(1) have lo: "lo = 0" and m: "rx_match rs (x # xs) = Some rest"
        by (auto split: if_splits)
      show ?thesis by (rule skip[OF lo m]) (rule "3.IH"(3)[OF False lo])
    qed
  qed
next
  case (4 as rs s)
  show ?case
  proof (cases r1)
    case Nil
    with "4.prems" show ?thesis by (intro exI[of _ "[]"] exI[of _ s]) simp
  next
    case (Cons a r1')
    with "4.prems" have a: "a = Opt as" and rs: "rs = r1' @ r2" by auto
    show ?thesis
    proof (cases "rx_match (map A as @ rs) s")
      case None
      with "4.prems"(1) have m: "rx_match rs s = Some rest" by simp
      from "4.IH"(2)[OF None m rs] obtain w mid where w: "s = w @ mid" "rx_lang r1' w"
        "rx_match r2 mid = Some rest" by blast
      then have "rx_lang r1 w" unfolding Cons a by simp
      with w show ?thesis by blast
    next
      case (Some r')
      with "4.prems"(1) have r': "r' = rest" by simp
      have e: "map A as @ rs = (map A as @ r1') @ r2" using rs by simp
      from "4.IH"(1)[OF Some[unfolded r'] e] obtain w mid where w: "s = w @ mid"
        "rx_lang (map A as @ r1') w" "rx_match r2 mid = Some rest" by blast
      then have "rx_lang r1 w" unfolding Cons a by simp
      with w show ?thesis by blast
    qed
  qed
qed

lemma run_unique:
  "list_all P u1 \<Longrightarrow> list_all P u2 \<Longrightarrow> u1 @ x1 # r1 = u2 @ x2 # r2 \<Longrightarrow> \<not> P x1 \<Longrightarrow> \<not> P x2 \<Longrightarrow>
   u1 = u2 \<and> x1 = x2 \<and> r1 = r2"
proof (induction u1 arbitrary: u2)
  case Nil
  then show ?case by (cases u2) auto
next
  case (Cons a u1)
  then show ?case by (cases u2) auto
qed

lemma run_bound:
  "list_all P u \<Longrightarrow> list_all P n \<Longrightarrow> u @ t = n @ x # r \<Longrightarrow> \<not> P x \<Longrightarrow> length u \<le> length n"
proof (induction u arbitrary: n)
  case Nil
  then show ?case by simp
next
  case (Cons a u)
  then show ?case by (cases n) auto
qed

lemma rx_lang_append:
  "rx_lang r1 a \<Longrightarrow> rx_lang r2 b \<Longrightarrow> rx_lang (r1 @ r2) (a @ b)"
proof (induction r1 a rule: rx_lang.induct)
  case (1 w)
  then show ?case by simp
next
  case (2 c lo hi rs w)
  from "2.prems"(1) obtain u v where uv: "w = u @ v" "list_all (in_cls c) u" "lo \<le> length u"
     "(case hi of None \<Rightarrow> True | Some k \<Rightarrow> length u \<le> k)" "rx_lang rs v" by auto
  from "2.IH"[OF uv(5) "2.prems"(2)] have "rx_lang (rs @ r2) (v @ b)" .
  then show ?case
    apply (simp only: append_Cons rx_lang.simps)
    apply (rule exI[of _ u], rule exI[of _ "v @ b"])
    using uv by simp
next
  case (3 as rs w)
  from "3.prems"(1) have "rx_lang (map A as @ rs) w \<or> rx_lang rs w" by simp
  then show ?case
  proof
    assume "rx_lang (map A as @ rs) w"
    from "3.IH"(1)[OF this "3.prems"(2)] show ?thesis by simp
  next
    assume "rx_lang rs w"
    from "3.IH"(2)[OF this "3.prems"(2)] show ?thesis by simp
  qed
qed

lemma digit_not_upper: "in_cls Digit x \<Longrightarrow> \<not> in_cls Upper x"
  by (auto simp: less_eq_char_def)

lemma upper_alnum: "in_cls Upper x \<Longrightarrow> in_cls AlNum x"
  by simp

lemma digit_alnum: "in_cls Digit x \<Longrightarrow> in_cls AlNum x"
  by simp

lemma colon_classes: "\<not> in_cls AlNum (CHR '':'')" "\<not> in_cls Digit (CHR '':'')" "\<not> in_cls AlNum (CHR ''!'')"
  by (simp_all add: less_eq_char_def)

lemma lang_digits: "rx_lang [A (Rep Digit 1 (Some 4))] d = row_digits d"
  by (auto simp: row_digits_def)

lemma lang_upper: "rx_lang [A (Rep Upper 1 (Some 3))] c = col_letters c"
  by (auto simp: col_letters_def)

lemma greedy_longest:
  assumes U: "\<And>h h0 y r z r0. rx_lang HB h \<Longrightarrow> rx_lang HB h0 \<Longrightarrow> h @ y # r = h0 @ z # r0 \<Longrightarrow>
                in_cls Digit y \<Longrightarrow> in_cls Digit z \<Longrightarrow> h = h0"
    and N: "\<And>h d u n r. rx_lang HB h \<Longrightarrow> row_digits d \<Longrightarrow> h @ d @ u = n @ CHR ''!'' # r \<Longrightarrow>
                list_all (in_cls AlNum) n \<Longrightarrow> length (h @ d) \<le> length n"
    and M: "rx_match (sheet_prefix # HB @ [A (Rep Digit 1 (Some 4))]) s = Some rest"
    and W: "s = p @ h @ d @ u" "sheet_part p" "rx_lang HB h" "row_digits d"
  shows "length (p @ h @ d) \<le> length s - length rest"
proof -
  let ?D = "[A (Rep Digit 1 (Some 4))]"
  let ?P = "A (Rep AlNum 1 None) # A (Rep (Lit (CHR ''!'')) 1 (Some 1)) # HB"
  obtain z d' where d: "d = z # d'" "in_cls Digit z" "list_all (in_cls Digit) d" "length d \<le> 4"
    using W(4) by (cases d) (auto simp: row_digits_def)
  have tail: "\<And>h0 mid. rx_lang HB h0 \<Longrightarrow> rx_match ?D mid = Some rest \<Longrightarrow> h @ d @ u = h0 @ mid \<Longrightarrow>
      length (h @ d) \<le> length (h0 @ mid) - length rest"
  proof -
    fix h0 mid
    assume h0: "rx_lang HB h0" and m: "rx_match ?D mid = Some rest" and e: "h @ d @ u = h0 @ mid"
    from rx_match_sound[OF m] obtain dd where dd: "mid = dd @ rest" "rx_lang ?D dd" by blast
    then obtain y dd' where y: "dd = y # dd'" "in_cls Digit y"
      by (cases dd) (auto simp: lang_digits row_digits_def)
    from e d dd y have "h @ z # (d' @ u) = h0 @ y # (dd' @ rest)" by simp
    from U[OF W(3) h0 this d(2) y(2)] have hh: "h = h0" .
    with e have mid: "mid = d @ u" by simp
    from last_atom_greedy[OF m mid d(3)] d(4) have "length d \<le> length mid - length rest" by simp
    moreover have "length rest \<le> length mid" using dd by simp
    ultimately show "length (h @ d) \<le> length (h0 @ mid) - length rest" using hh by simp
  qed
  show ?thesis
  proof (cases "rx_match (?P @ ?D) s")
    case None
    with M have m: "rx_match (HB @ ?D) s = Some rest" by (simp add: sheet_prefix_def)
    from rx_match_append[OF m refl] obtain h0 mid where h0: "s = h0 @ mid" "rx_lang HB h0"
      "rx_match ?D mid = Some rest" by blast
    show ?thesis
    proof (cases "p = []")
      case True
      with W(1) h0(1) have "h @ d @ u = h0 @ mid" by simp
      from tail[OF h0(2,3) this] True h0(1) show ?thesis by simp
    next
      case False
      with W(2) obtain n where n: "n \<noteq> []" "list_all (in_cls AlNum) n" "p = n @ ''!''"
        by (auto simp: sheet_part_def)
      have "rx_lang (HB @ ?D) (h @ d)"
        by (rule rx_lang_append[OF W(3)]) (simp only: lang_digits W(4))
      then have "rx_lang (A (Rep (Lit (CHR ''!'')) 1 (Some 1)) # HB @ ?D) (CHR ''!'' # h @ d)"
        unfolding lang_colon by simp
      then have "rx_lang (?P @ ?D) (n @ CHR ''!'' # h @ d)"
        apply (simp only: append_Cons rx_lang.simps(2)[of AlNum])
        apply (rule exI[of _ n], rule exI[of _ "CHR ''!'' # h @ d"])
        using n by (cases n) simp_all
      from rx_match_complete[OF this, of s u] W(1) n None show ?thesis by simp
    qed
  next
    case (Some r')
    with M have r': "r' = rest" by (simp add: sheet_prefix_def)
    from rx_match_append[OF Some[unfolded r'] refl] obtain w0 mid where w0: "s = w0 @ mid"
      "rx_lang ?P w0" "rx_match ?D mid = Some rest" by blast
    from w0(2) obtain n0 v0 where n0: "w0 = n0 @ v0" "list_all (in_cls AlNum) n0"
      "rx_lang (A (Rep (Lit (CHR ''!'')) 1 (Some 1)) # HB) v0"
      by (simp del: rx_lang.simps(2) add: rx_lang.simps(2)[of AlNum]) force
    from n0(3) obtain h0 where h0: "v0 = CHR ''!'' # h0" "rx_lang HB h0"
      unfolding lang_colon by blast
    have s: "s = n0 @ CHR ''!'' # (h0 @ mid)" using w0 n0 h0 by simp
    from rx_match_suffix[OF w0(3)] have rl: "length rest \<le> length mid" by auto
    show ?thesis
    proof (cases "p = []")
      case True
      with W(1) s have "h @ d @ u = n0 @ CHR ''!'' # (h0 @ mid)" by simp
      from N[OF W(3,4) this n0(2)] have "length (h @ d) \<le> length n0" .
      with True s rl show ?thesis by simp
    next
      case False
      with W(2) obtain n where n: "n \<noteq> []" "list_all (in_cls AlNum) n" "p = n @ ''!''"
        by (auto simp: sheet_part_def)
      with W(1) s have "n @ CHR ''!'' # (h @ d @ u) = n0 @ CHR ''!'' # (h0 @ mid)" by simp
      from run_unique[OF n(2) n0(2) this colon_classes(3) colon_classes(3)]
      have nn: "n = n0" and e: "h @ d @ u = h0 @ mid" by simp_all
      from tail[OF h0(2) w0(3) e] have "length (h @ d) \<le> length (h0 @ mid) - length rest" .
      with n nn s rl show ?thesis by simp
    qed
  qed
qed

lemma cell_head_unique:
  assumes "rx_lang [A (Rep Upper 1 (Some 3))] h" "rx_lang [A (Rep Upper 1 (Some 3))] h0"
    "h @ y # r = h0 @ z # r0" "in_cls Digit y" "in_cls Digit z"
  shows "h = h0"
proof -
  from assms(1,2) have "list_all (in_cls Upper) h" "list_all (in_cls Upper) h0"
    by (simp_all add: lang_upper col_letters_def)
  from run_unique[OF this assms(3) digit_not_upper[OF assms(4)] digit_not_upper[OF assms(5)]]
  show ?thesis by simp
qed

lemma cell_head_bound:
  assumes "rx_lang [A (Rep Upper 1 (Some 3))] h" "row_digits d" "h @ d @ u = n @ CHR ''!'' # r"
    "list_all (in_cls AlNum) n"
  shows "length (h @ d) \<le> length n"
proof -
  from assms(1) have "list_all (in_cls Upper) h" by (simp add: lang_upper col_letters_def)
  then have 1: "list_all (in_cls AlNum) h" by (induction h) auto
  from assms(2) have "list_all (in_cls Digit) d" by (simp add: row_digits_def)
  then have 2: "list_all (in_cls AlNum) d" by (induction d) auto
  from 1 2 have "list_all (in_cls AlNum) (h @ d)" by simp
  from run_bound[OF this assms(4) _ colon_classes(3), of u r] assms(3) show ?thesis by simp
qed

lemma lang_range_head:
  "rx_lang range_head h = (\<exists>c d c'. h = c @ d @ CHR '':'' # c' \<and> col_letters c \<and> row_digits d \<and> col_letters c')"
  unfolding range_head_def lang_cell_ref lang_colon lang_upper by auto

lemma range_head_unique:
  assumes "rx_lang range_head h" "rx_lang range_head h0"
    "h @ y # r = h0 @ z # r0" "in_cls Digit y" "in_cls Digit z"
  shows "h = h0"
proof -
  from assms(1) obtain c d c' where h: "h = c @ d @ CHR '':'' # c'" "col_letters c" "row_digits d"
    "col_letters c'" unfolding lang_range_head by blast
  from assms(2) obtain c0 d0 c0' where h0: "h0 = c0 @ d0 @ CHR '':'' # c0'" "col_letters c0"
    "row_digits d0" "col_letters c0'" unfolding lang_range_head by blast
  obtain a d1 where d: "d = a # d1" "in_cls Digit a" "list_all (in_cls Digit) d"
    using h(3) by (cases d) (auto simp: row_digits_def)
  obtain a0 d01 where d0: "d0 = a0 # d01" "in_cls Digit a0" "list_all (in_cls Digit) d0"
    using h0(3) by (cases d0) (auto simp: row_digits_def)
  have u: "list_all (in_cls Upper) c" "list_all (in_cls Upper) c0"
    "list_all (in_cls Upper) c'" "list_all (in_cls Upper) c0'"
    using h h0 by (simp_all add: col_letters_def)
  have e1: "c @ a # (d1 @ CHR '':'' # c' @ y # r) = c0 @ a0 # (d01 @ CHR '':'' # c0' @ z # r0)"
    using assms(3) h h0 d d0 by simp
  from run_unique[OF u(1,2) e1 digit_not_upper[OF d(2)] digit_not_upper[OF d0(2)]]
  have cc: "c = c0" and e2: "d @ CHR '':'' # (c' @ y # r) = d0 @ CHR '':'' # (c0' @ z # r0)"
    using d d0 by simp_all
  from run_unique[OF d(3) d0(3) e2 colon_classes(2) colon_classes(2)]
  have dd: "d = d0" and e3: "c' @ y # r = c0' @ z # r0" by simp_all
  from run_unique[OF u(3,4) e3 digit_not_upper[OF assms(4)] digit_not_upper[OF assms(5)]]
  have "c' = c0'" by simp
  with cc dd h h0 show ?thesis by simp
qed

lemma range_head_bound:
  assumes "rx_lang range_head h" "row_digits d" "h @ d @ u = n @ CHR ''!'' # r"
    "list_all (in_cls AlNum) n"
  shows "length (h @ d) \<le> length n"
proof -
  from assms(1) obtain c e c' where h: "h = c @ e @ CHR '':'' # c'" "col_letters c" "row_digits e"
    unfolding lang_range_head by blast
  from h(2) have "list_all (in_cls Upper) c" by (simp add: col_letters_def)
  then have 1: "list_all (in_cls AlNum) c" by (induction c) auto
  from h(3) have "list_all (in_cls Digit) e" by (simp add: row_digits_def)
  then have 2: "list_all (in_cls AlNum) e" by (induction e) auto
  from 1 2 have 3: "list_all (in_cls AlNum) (c @ e)" by simp
  have "(c @ e) @ CHR '':'' # (c' @ d @ u) = n @ CHR ''!'' # r" using assms(3) h by simp
  from run_unique[OF 3 assms(4) this colon_classes(1) colon_classes(3)] show ?thesis by simp
qed

lemma range_rx_split: "range_rx = sheet_prefix # range_head @ [A (Rep Digit 1 (Some 4))]"
  by (simp add: range_rx_def range_head_def cell_ref_def)

lemma cell_rx_split: "cell_rx = sheet_prefix # [A (Rep Upper 1 (Some 3))] @ [A (Rep Digit 1 (Some 4))]"
  by (simp add: cell_rx_def cell_ref_def)

lemma range_match_longest:
  assumes "rx_match range_rx t = Some rest"
  shows "\<exists>m. t = m @ rest \<and> range_shape m \<and> m \<noteq> [] \<and>
     (\<forall>w u. t = w @ u \<longrightarrow> range_shape w \<longrightarrow> length w \<le> length m)"
proof -
  from rx_match_sound[OF assms] obtain m where m: "t = m @ rest" "rx_lang range_rx m" by blast
  then have sh: "range_shape m" by (simp add: lang_range)
  then have ne: "m \<noteq> []" by (auto simp: range_shape_def)
  have "\<forall>w u. t = w @ u \<longrightarrow> range_shape w \<longrightarrow> length w \<le> length m"
  proof (intro allI impI)
    fix w u
    assume e: "t = w @ u" and w: "range_shape w"
    then obtain p c d c' d' where x: "w = p @ c @ d @ '':'' @ c' @ d'" "sheet_part p"
      "col_letters c" "row_digits d" "col_letters c'" "row_digits d'"
      unfolding range_shape_def by blast
    have h: "rx_lang range_head (c @ d @ CHR '':'' # c')"
      unfolding lang_range_head using x by blast
    have t: "t = p @ (c @ d @ CHR '':'' # c') @ d' @ u" using e x by simp
    from greedy_longest[of range_head, OF range_head_unique range_head_bound
        assms[unfolded range_rx_split] t x(2) h x(6)]
    have "length (p @ (c @ d @ CHR '':'' # c') @ d') \<le> length t - length rest" by simp
    with x m show "length w \<le> length m" by simp
  qed
  with m sh ne show ?thesis by blast
qed

lemma cell_match_longest:
  assumes "rx_match cell_rx t = Some rest"
  shows "\<exists>m. t = m @ rest \<and> cell_shape m \<and> m \<noteq> [] \<and>
     (\<forall>w u. t = w @ u \<longrightarrow> cell_shape w \<longrightarrow> length w \<le> length m)"
proof -
  from rx_match_sound[OF assms] obtain m where m: "t = m @ rest" "rx_lang cell_rx m" by blast
  then have sh: "cell_shape m" by (simp add: lang_cell)
  then have ne: "m \<noteq> []" by (auto simp: cell_shape_def col_letters_def)
  have "\<forall>w u. t = w @ u \<longrightarrow> cell_shape w \<longrightarrow> length w \<le> length m"
  proof (intro allI impI)
    fix w u
    assume e: "t = w @ u" and w: "cell_shape w"
    then obtain p c d where x: "w = p @ c @ d" "sheet_part p" "col_letters c" "row_digits d"
      unfolding cell_shape_def by blast
    have h: "rx_lang [A (Rep Upper 1 (Some 3))] c" unfolding lang_upper using x by simp
    have t: "t = p @ c @ d @ u" using e x by simp
    from greedy_longest[of "[A (Rep Upper 1 (Some 3))]", OF cell_head_unique cell_head_bound
        assms[unfolded cell_rx_split] t x(2) h x(4)]
    have "length (p @ c @ d) \<le> length t - length rest" by simp
    with x m show "length w \<le> length m" by simp
  qed
  with m sh ne show ?thesis by blast
qed

lemma range_match_complete: "range_shape w \<Longrightarrow> rx_match range_rx (w @ u) \<noteq> None"
  using rx_match_complete[of range_rx w "w @ u" u] by (simp add: lang_range)

lemma cell_match_complete: "cell_shape w \<Longrightarrow> rx_match cell_rx (w @ u) \<noteq> None"
  using rx_match_complete[of cell_rx w "w @ u" u] by (simp add: lang_cell)

lemma ranges_extracted: "extracted range_shape f (scan range_rx f) (strip range_rx f)"
  by (rule scan_strip_extracted[OF range_match_longest range_match_complete])

lemma cells_extracted: "extracted cell_shape t (scan cell_rx t) (strip cell_rx t)"
  by (rule scan_strip_extracted[OF cell_match_longest cell_match_complete])
section \<open>Lemmas about the heap\<close>

lemma the_cell_upd [simp]:
  "c < length (h_cells h) \<Longrightarrow> the_cell (upd_cell h c f) c = f (the_cell h c)"
  by (simp add: the_cell_def upd_cell_def)

lemma the_cell_upd_other [simp]:
  "c \<noteq> d \<Longrightarrow> the_cell (upd_cell h c f) d = the_cell h d"
  by (simp add: the_cell_def upd_cell_def)

lemma h_objs_upd_cell [simp]: "h_objs (upd_cell h c f) = h_objs h"
  by (simp add: upd_cell_def)

lemma length_cells_upd_cell [simp]: "length (h_cells (upd_cell h c f)) = length (h_cells h)"
  by (simp add: upd_cell_def)

lemma valid_cell_upd_cell [simp]: "valid_cell (upd_cell h c f) d = valid_cell h d"
  by (simp add: valid_cell_def)

lemma get_prop_upd_cell [simp]: "get_prop (upd_cell h c f) v p = get_prop h v p"
  by (cases v) simp_all

lemma h_detached_upd_cell [simp]: "h_detached (upd_cell h c f) = h_detached h"
  by (simp add: upd_cell_def)

lemma release_not_Merge: "kind v \<noteq> TMerge \<Longrightarrow> release h v = Ok () h"
  by (cases v) simp_all

lemma mark_released_not_Merge: "kind v \<noteq> TMerge \<Longrightarrow> mark_released v = v"
  by (cases v) simp_all

lemma put_value_same: "put_value h l (value_at h l) = h"
  by (cases l) (simp_all add: upd_cell_def the_cell_def)

lemma release_value_not_Merge: "kind (value_at h l) \<noteq> TMerge \<Longrightarrow> release_value h l = Ok () h"
  by (simp add: release_value_def release_not_Merge mark_released_not_Merge put_value_same)

lemma getType_not_Merge: "getType h v \<noteq> Inr TMerge"
  by (cases v) (auto simp: getType_def split: sum.splits if_splits)

lemmas new_defs = new_NullValue_def new_NumberValue_def new_StringValue_def new_DateValue_def
  new_HyperlinkValue_def new_FormulaValue_def new_MergeValue_def

lemma the_cell_objs [simp]: "the_cell (h\<lparr>h_objs := os\<rparr>) c = the_cell h c"
  by (simp add: the_cell_def)

lemma valid_cell_objs [simp]: "valid_cell (h\<lparr>h_objs := os\<rparr>) c = valid_cell h c"
  by (simp add: valid_cell_def)

lemma the_cell_upd_if:
  "the_cell (upd_cell h c f) d = (if c = d \<and> valid_cell h c then f (the_cell h c) else the_cell h d)"
  by (cases "c < length (h_cells h)")
     (auto simp: the_cell_def upd_cell_def valid_cell_def nth_list_update list_update_beyond)

lemma h_objs_addMergeRef [simp]: "h_objs (addMergeRef h a) = h_objs h"
  by (simp add: addMergeRef_def)

lemma h_objs_releaseMergeRef [simp]: "h_objs (releaseMergeRef h a) = h_objs h"
  by (simp add: releaseMergeRef_def)

lemma valid_cell_addMergeRef [simp]: "valid_cell (addMergeRef h a) d = valid_cell h d"
  by (simp add: addMergeRef_def)

lemma valid_cell_releaseMergeRef [simp]: "valid_cell (releaseMergeRef h a) d = valid_cell h d"
  by (simp add: releaseMergeRef_def)

lemma get_prop_addMergeRef [simp]: "get_prop (addMergeRef h a) v p = get_prop h v p"
  by (simp add: addMergeRef_def)

lemma get_prop_releaseMergeRef [simp]: "get_prop (releaseMergeRef h a) v p = get_prop h v p"
  by (simp add: releaseMergeRef_def)

lemma the_cell_addMergeRef:
  "the_cell (addMergeRef h a) d =
     (if a = d \<and> valid_cell h a then (the_cell h a)\<lparr>c_mergeCount := c_mergeCount (the_cell h a) + 1\<rparr>
      else the_cell h d)"
  by (simp add: addMergeRef_def the_cell_upd_if)

lemma the_cell_releaseMergeRef:
  "the_cell (releaseMergeRef h a) d =
     (if a = d \<and> valid_cell h a then (the_cell h a)\<lparr>c_mergeCount := c_mergeCount (the_cell h a) - 1\<rparr>
      else the_cell h d)"
  by (simp add: releaseMergeRef_def the_cell_upd_if)

lemma h_detached_tweaks [simp]:
  "h_detached (addMergeRef h a) = h_detached h"
  "h_detached (releaseMergeRef h a) = h_detached h"
  by (simp_all add: addMergeRef_def releaseMergeRef_def)

lemma the_cell_detached [simp]: "the_cell (h\<lparr>h_detached := ds\<rparr>) c = the_cell h c"
  by (simp add: the_cell_def)

lemma valid_cell_detached [simp]: "valid_cell (h\<lparr>h_detached := ds\<rparr>) c = valid_cell h c"
  by (simp add: valid_cell_def)

lemma get_prop_detached [simp]: "get_prop (h\<lparr>h_detached := ds\<rparr>) v p = get_prop h v p"
  by (cases v) simp_all

lemma the_cell_install:
  "the_cell (install h c v) d =
     (if c = d \<and> valid_cell h c then (the_cell h c)\<lparr>c_value := v\<rparr> else the_cell h d)"
  by (cases "c = d") (simp_all add: install_def the_cell_upd_if)

lemma install_simps [simp]:
  "h_objs (install h c v) = h_objs h"
  "length (h_cells (install h c v)) = length (h_cells h)"
  "valid_cell (install h c v) d = valid_cell h d"
  "get_prop (install h c v) x p = get_prop h x p"
  "h_detached (install h c v) = h_detached h @ [c_value (the_cell h c)]"
  by (simp_all add: install_def)

lemma the_cell_put_value:
  "the_cell (put_value h l v) d =
     (if l = Held d \<and> valid_cell h d then (the_cell h d)\<lparr>c_value := v\<rparr> else the_cell h d)"
proof (cases l)
  case (Held c)
  then show ?thesis by (cases "c = d") (simp_all add: the_cell_upd_if)
next
  case (Detached i)
  then show ?thesis by simp
qed

lemma put_value_simps [simp]:
  "h_objs (put_value h l v) = h_objs h"
  "length (h_cells (put_value h l v)) = length (h_cells h)"
  "valid_cell (put_value h l v) d = valid_cell h d"
  "get_prop (put_value h l v) x p = get_prop h x p"
  "length (h_detached (put_value h l v)) = length (h_detached h)"
  by (cases l; simp)+

lemmas heap_simps = the_cell_upd_if the_cell_addMergeRef the_cell_releaseMergeRef
  the_cell_install the_cell_put_value

text \<open>The definitions a concrete call unfolds to.\<close>

lemmas run_defs = valid_cell_def the_cell_def upd_cell_def install_def release_value_def
  get_type_def alloc_def
  create_def getType_def prop_if_truthy_def field_of_def new_defs
  addMergeRef_def releaseMergeRef_def new_Cell_def merge_def unmerge_def
  get_model_def set_model_def get_mergeCount_def get_master_def isMergedTo_def isMerged_def
  E0_def h_row_def h_A_def h_AB_def h_merged_def h_A42_def h_merged_bad_def
  h_merged_read_def h_reimported_def h_ABC_def h_failed_def

lemma merge_onto:
  assumes "valid_cell h a" and "valid_cell h b" and "get_type h b \<noteq> TMerge"
  shows "merge h b (Some a) =
     Ok () (install
        (addMergeRef
           (h\<lparr>h_objs := h_objs h @
               [[(''address'', JStr (c_address (the_cell h b))), (''type'', JTag TMerge),
                 (''master'', JStr (c_address (the_cell h a)))]]\<rparr>) a)
        b (MergeValue (JObj (length (h_objs h))) (Some a) False))"
  using assms
  by (simp add: merge_def release_value_not_Merge get_type_def create_def new_MergeValue_def alloc_def)

lemma set_value_plain:
  assumes "valid_cell h a" and "get_type h a \<noteq> TMerge" and "plain_scalar v"
  shows "\<exists>h2. set_value (Suc n) h a v = Ok () h2
     \<and> h_cells h2 = (h_cells h)[a := (the_cell h2 a)]
     \<and> c_mergeCount (the_cell h2 a) = c_mergeCount (the_cell h a)
     \<and> kind (c_value (the_cell h2 a)) \<noteq> TMerge
     \<and> (\<forall>k. get_value (Suc k) h2 a = Ok v h2)"
  using assms
  by (cases v)
     (auto simp: release_value_not_Merge get_type_def getType_def create_def new_defs alloc_def
        valid_cell_def upd_cell_def install_def the_cell_def field_of_def)

lemma get_value_Merge:
  "valid_cell h b \<Longrightarrow> c_value (the_cell h b) = MergeValue m (Some a) rl \<Longrightarrow>
   get_value (Suc k) h b = get_value k h a"
  by simp

lemma set_value_Merge:
  "valid_cell h b \<Longrightarrow> c_value (the_cell h b) = MergeValue m (Some a) rl \<Longrightarrow>
   set_value (Suc k) h b v = set_value k h a v"
  by (simp add: get_type_def)

lemma release_value_Merge:
  "value_at h l = MergeValue m (Some a) rl \<Longrightarrow>
   release_value h l = Ok () (put_value (releaseMergeRef h a) l (MergeValue m (Some a) True))"
  by (cases l) (simp_all add: release_value_def heap_simps)

lemma unmerge_Merge:
  assumes "valid_cell h b" and "c_value (the_cell h b) = MergeValue m (Some a) rl"
  shows "unmerge h b =
     Ok () (install
        ((put_value (releaseMergeRef h a) (Held b) (MergeValue m (Some a) True))\<lparr>h_objs := h_objs h @
               [[(''address'', JStr (c_address (the_cell h b))), (''type'', JTag TNull)]]\<rparr>)
        b (NullValue (JObj (length (h_objs h)))))"
  using assms
  by (simp add: unmerge_def get_type_def create_def new_NullValue_def alloc_def
        release_value_Merge heap_simps)

lemma field_of_update: "field_of (AList.update f x ob) g = (if f = g then x else field_of ob g)"
  by (simp add: field_of_def update_conv')

lemma create_Err: "create h ty c v m = Err e h' \<Longrightarrow> h' = h"
  by (auto simp: create_def new_defs alloc_def split: option.splits ValueType.splits sum.splits)

lemma create_Ok_objs:
  "create h ty c v m = Ok nv h2 \<Longrightarrow> length (h_objs h) < length (h_objs h2) \<and> take (length (h_objs h)) (h_objs h2) = h_objs h"
  by (auto simp: create_def new_defs alloc_def split: option.splits ValueType.splits sum.splits)

lemma release_no_master:
  "master_of v = None \<Longrightarrow> release h v = Ok () h \<or> release h v = Err TypeError h"
  by (cases v) simp_all

lemma release_value_no_master:
  "master_of (value_at h l) = None \<Longrightarrow>
   release_value h l = Ok () h \<or> release_value h l = Err TypeError h"
  by (cases "value_at h l")
     (simp_all add: release_value_not_Merge, simp add: release_value_def)

lemma set_value_Err: "set_value n h c v = Err e h' \<Longrightarrow> h' = h"
proof (induction n arbitrary: c)
  case 0
  then show ?case by simp
next
  case (Suc n)
  show ?case
  proof (cases "valid_cell h c \<and> get_type h c \<noteq> TMerge")
    case True
    then have "release_value h (Held c) = Ok () h"
      by (simp add: release_value_not_Merge get_type_def)
    with True Suc.prems show ?thesis
      by (auto split: sum.splits res.splits dest: create_Err)
  next
    case False
    with Suc show ?thesis
      by (auto split: option.splits if_splits)
  qed
qed

lemma get_prop_mono:
  "get_prop h v p = Inr x \<Longrightarrow> length (h_objs h) \<le> length (h_objs h2) \<Longrightarrow> \<exists>y. get_prop h2 v q = Inr y"
  by (cases v) (auto split: if_splits)

lemma set_model_Err:
  assumes "master_of (c_value (the_cell h c)) = None" and "set_model h c v = Err e h'"
  shows "h' = h"
proof (cases "valid_cell h c")
  case False
  with assms show ?thesis by (simp add: set_model_def)
next
  case True
  have "release_value h (Held c) = Ok () h \<or> release_value h (Held c) = Err TypeError h"
    using release_value_no_master[of h "Held c"] assms(1) by simp
  then show ?thesis
  proof
    assume "release_value h (Held c) = Err TypeError h"
    with True assms(2) show ?thesis by (simp add: set_model_def)
  next
    assume r: "release_value h (Held c) = Ok () h"
    show ?thesis
    proof (cases "get_prop h v ''type''")
      case (Inl a)
      with True r assms(2) show ?thesis by (simp add: set_model_def)
    next
      case (Inr ty)
      show ?thesis
      proof (cases "create h ty c JUndefined None")
        case (Err e2 h2)
        with True r Inr assms(2) create_Err[OF Err] show ?thesis by (simp add: set_model_def)
      next
        case (Ok nv h2)
        from create_Ok_objs[OF Ok] have "length (h_objs h) \<le> length (h_objs h2)" by simp
        from get_prop_mono[OF Inr this, of "''style''"] obtain st where
          "get_prop h2 v ''style'' = Inr st" by blast
        with True r Inr Ok assms(2) show ?thesis
          by (simp add: set_model_def alloc_def split: if_splits)
      qed
    qed
  qed
qed

lemma release_Ok_objs:
  "release h v = Ok u h1 \<Longrightarrow> h_objs h1 = h_objs h \<and> length (h_cells h1) = length (h_cells h)
     \<and> (\<forall>d. c_address (the_cell h1 d) = c_address (the_cell h d))"
  by (cases v; cases "master_of v")
     (auto simp: releaseMergeRef_def heap_simps)

lemma release_value_Ok_objs:
  assumes "release_value h l = Ok u h1"
  shows "h_objs h1 = h_objs h \<and> length (h_cells h1) = length (h_cells h)
     \<and> (\<forall>d. c_address (the_cell h1 d) = c_address (the_cell h d))"
proof -
  from assms obtain h0 where r: "release h (value_at h l) = Ok () h0"
    and h1: "h1 = put_value h0 l (mark_released (value_at h0 l))"
    by (cases "release h (value_at h l)") (auto simp: release_value_def)
  from release_Ok_objs[OF r] h1 show ?thesis by (simp add: heap_simps)
qed

lemma release_not_stuck:
  "(kind v = TMerge \<longrightarrow> master_of v \<noteq> None) \<Longrightarrow> \<exists>h1. release h v = Ok () h1"
  by (cases v) auto

lemma release_value_not_stuck:
  assumes "kind (value_at h l) = TMerge \<longrightarrow> master_of (value_at h l) \<noteq> None"
  shows "\<exists>h1. release_value h l = Ok () h1"
proof -
  from release_not_stuck[OF assms, of h] obtain h0 where "release h (value_at h l) = Ok () h0"
    by blast
  then show ?thesis by (simp add: release_value_def)
qed

lemma create_from_snapshot:
  assumes "types ty = Some T"
  shows "\<exists>nv ob. create h ty c JUndefined None = Ok nv (h\<lparr>h_objs := h_objs h @ [ob]\<rparr>) \<and> kind nv = T
          \<and> master_of nv = None"
  using assms
  by (cases T) (auto simp: create_def new_defs alloc_def prop_if_truthy_def)

lemma kind_with_model [simp]: "kind (with_model nv m) = kind nv"
  by (cases nv) simp_all

lemma model_of_with_model [simp]: "model_of (with_model nv m) = m"
  by (cases nv) simp_all

lemma master_of_with_model [simp]: "master_of (with_model nv m) = master_of nv"
  by (cases nv) simp_all

lemma with_model_same: "kind nv = kind v \<Longrightarrow> kind v \<noteq> TMerge \<Longrightarrow>
  with_model nv (model_of v) = v"
  by (cases nv; cases v) simp_all

lemma set_model_import:
  assumes "valid_cell h c" and "r < length (h_objs h)"
    and "types (field_of (h_objs h ! r) ''type'') = Some T"
    and "get_type h c = TMerge \<longrightarrow> master_of (c_value (the_cell h c)) \<noteq> None"
  shows "\<exists>h1. set_model h c (JObj r) = Ok () h1 \<and> valid_cell h1 c
     \<and> get_type h1 c = T \<and> model_of (c_value (the_cell h1 c)) = JObj r
     \<and> r < length (h_objs h1) \<and> h_objs h1 ! r = h_objs h ! r
     \<and> c_style (the_cell h1 c) =
          (if truthy (field_of (h_objs h ! r) ''style'') then field_of (h_objs h ! r) ''style''
           else JObj (Suc (length (h_objs h))))"
proof -
  from release_value_not_stuck[of h "Held c"] assms(4)
  obtain h0 where r0: "release_value h (Held c) = Ok () h0"
    by (auto simp: get_type_def)
  from release_value_Ok_objs[OF r0] have o0: "h_objs h0 = h_objs h"
    and l0: "length (h_cells h0) = length (h_cells h)" by auto
  from create_from_snapshot[OF assms(3), of h0 c] obtain nv ob where
    cr: "create h0 (field_of (h_objs h ! r) ''type'') c JUndefined None
           = Ok nv (h0\<lparr>h_objs := h_objs h0 @ [ob]\<rparr>)" and k: "kind nv = T"
    by blast
  from assms(1) l0 have v0: "valid_cell h0 c" by (simp add: valid_cell_def)
  show ?thesis
    using assms(1,2) r0 o0 cr k v0
    by (auto simp: set_model_def alloc_def nth_append get_type_def heap_simps)
qed


text \<open>A cell merged onto itself: every read and every write of its value uses up the call
  stack, whatever its depth.\<close>

lemma h_self_cell: "valid_cell h_self 0 \<and> c_value (the_cell h_self 0) = MergeValue (JObj 3) (Some 0) False"
  by (simp add: run_defs h_self_def)

lemma self_merge_reads: "get_value k h_self 0 = Err RangeError h_self"
proof (induction k)
  case 0
  show ?case by simp
next
  case (Suc k)
  from h_self_cell have "get_value (Suc k) h_self 0 = get_value k h_self 0"
    by (intro get_value_Merge) auto
  with Suc show ?case by (simp del: get_value.simps)
qed

lemma self_merge_writes: "set_value k h_self 0 v = Err RangeError h_self"
proof (induction k)
  case 0
  show ?case by simp
next
  case (Suc k)
  from h_self_cell have "set_value (Suc k) h_self 0 v = set_value k h_self 0 v"
    by (intro set_value_Merge) auto
  with Suc show ?case by (simp del: set_value.simps)
qed
section \<open>Lemmas about the merge bookkeeping\<close>

lemma count_list_update:
  "i < length xs \<Longrightarrow>
   int (count_list (xs[i := y]) v) =
     int (count_list xs v) - (if xs ! i = v then 1 else 0) + (if y = v then 1 else 0)"
proof (induction xs arbitrary: i)
  case Nil
  then show ?case by simp
next
  case (Cons x xs)
  show ?case
  proof (cases i)
    case 0
    then show ?thesis by simp
  next
    case (Suc j)
    with Cons.IH[of j] Cons.prems show ?thesis by (auto split: if_splits)
  qed
qed

lemma live_master_simps [simp]:
  "live_master (mark_released v) = None"
  "live_master (with_model v m) = live_master v"
  by (cases v; simp)+

lemma live_master_dead: "kind v = TMerge \<longrightarrow> released v \<Longrightarrow> live_master v = None"
  by (cases v) simp_all

lemma kind_live: "kind v \<noteq> TMerge \<Longrightarrow> live_master v = None"
  by (cases v) simp_all

lemma kind_master: "kind v \<noteq> TMerge \<Longrightarrow> master_of v = None"
  by (cases v) simp_all

lemma dead_count:
  "detached_dead h \<Longrightarrow> count_list (map live_master (h_detached h)) (Some a) = 0"
  by (auto simp: detached_dead_def count_list_0_iff dest!: live_master_dead)

lemma refs_to_cells:
  "detached_dead h \<Longrightarrow>
   refs_to h a = count_list (map (\<lambda>x. live_master (c_value x)) (h_cells h)) (Some a)"
  by (simp add: refs_to_def all_values_def dead_count comp_def)

lemma good_alt:
  "good h = (detached_dead h
     \<and> (\<forall>a. valid_cell h a \<longrightarrow> get_mergeCount h a =
            int (count_list (map (\<lambda>x. live_master (c_value x)) (h_cells h)) (Some a)))
     \<and> (\<forall>c a. valid_cell h c \<and> live_master (c_value (the_cell h c)) = Some a \<longrightarrow> valid_cell h a))"
  by (auto simp: good_def merge_inv_def masters_valid_def valid_cell_def get_mergeCount_def
        the_cell_def refs_to_cells)

lemma swap_good:
  assumes g: "good h" and vc: "valid_cell h c"
    and len: "length (h_cells g) = length (h_cells h)"
    and vals: "\<And>x. valid_cell h x \<Longrightarrow> live_master (c_value (the_cell g x)) =
                 (if x = c then N else live_master (c_value (the_cell h x)))"
    and cnts: "\<And>x. valid_cell h x \<Longrightarrow> get_mergeCount g x =
                 get_mergeCount h x - (if live_master (c_value (the_cell h c)) = Some x then 1 else 0)
                   + (if N = Some x then 1 else 0)"
    and newv: "\<And>b. N = Some b \<Longrightarrow> valid_cell h b"
    and det: "detached_dead g"
  shows "good g"
proof -
  let ?L = "\<lambda>h. map (\<lambda>x. live_master (c_value x)) (h_cells h)"
  have L: "?L g = (?L h)[c := N]"
  proof (rule nth_equalityI)
    show "length (?L g) = length ((?L h)[c := N])" using len by simp
  next
    fix i assume "i < length (?L g)"
    then have i: "valid_cell h i" using len by (simp add: valid_cell_def)
    with vals[OF i] len show "?L g ! i = (?L h)[c := N] ! i"
      by (simp add: the_cell_def valid_cell_def nth_list_update)
  qed
  have c: "c < length (?L h)" using vc by (simp add: valid_cell_def)
  have Lc: "?L h ! c = live_master (c_value (the_cell h c))"
    using vc by (simp add: valid_cell_def the_cell_def)
  have vg: "\<And>x. valid_cell g x = valid_cell h x" using len by (simp add: valid_cell_def)
  from g have ih: "\<And>a. valid_cell h a \<Longrightarrow> get_mergeCount h a = int (count_list (?L h) (Some a))"
    and mv: "\<And>d a. valid_cell h d \<Longrightarrow> live_master (c_value (the_cell h d)) = Some a \<Longrightarrow> valid_cell h a"
    unfolding good_alt by blast+
  show ?thesis
    unfolding good_alt
  proof (intro conjI allI impI)
    show "detached_dead g" by (rule det)
  next
    fix a assume "valid_cell g a"
    then have va: "valid_cell h a" by (simp add: vg)
    show "get_mergeCount g a = int (count_list (?L g) (Some a))"
      unfolding L count_list_update[OF c] Lc cnts[OF va] ih[OF va] by simp
  next
    fix d a assume "valid_cell g d \<and> live_master (c_value (the_cell g d)) = Some a"
    then have vd: "valid_cell h d" and lm: "live_master (c_value (the_cell g d)) = Some a"
      by (simp_all add: vg)
    show "valid_cell g a"
    proof (cases "d = c")
      case True
      with lm vals[OF vd] have "N = Some a" by simp
      from newv[OF this] show ?thesis by (simp add: vg)
    next
      case False
      with lm vals[OF vd] have "live_master (c_value (the_cell h d)) = Some a" by simp
      from mv[OF vd this] show ?thesis by (simp add: vg)
    qed
  qed
qed

lemma same_good:
  assumes g: "good h"
    and len: "length (h_cells g) = length (h_cells h)"
    and vals: "\<And>x. valid_cell h x \<Longrightarrow> live_master (c_value (the_cell g x)) =
                 live_master (c_value (the_cell h x))"
    and cnts: "\<And>x. valid_cell h x \<Longrightarrow> get_mergeCount g x = get_mergeCount h x"
    and det: "detached_dead g"
  shows "good g"
proof -
  let ?L = "\<lambda>h. map (\<lambda>x. live_master (c_value x)) (h_cells h)"
  have L: "?L g = ?L h"
  proof (rule nth_equalityI)
    show "length (?L g) = length (?L h)" using len by simp
  next
    fix i assume "i < length (?L g)"
    then have i: "valid_cell h i" using len by (simp add: valid_cell_def)
    with vals[OF i] len show "?L g ! i = ?L h ! i"
      by (simp add: the_cell_def valid_cell_def)
  qed
  have vg: "\<And>x. valid_cell g x = valid_cell h x" using len by (simp add: valid_cell_def)
  from g show ?thesis
    unfolding good_alt L using det vals cnts by (auto simp: vg)
qed

lemma good_cong:
  "h_cells g = h_cells h \<Longrightarrow> h_detached g = h_detached h \<Longrightarrow> good h \<Longrightarrow> good g"
  by (rule same_good[of h])
     (simp_all add: the_cell_def get_mergeCount_def detached_dead_def good_def)

lemma get_mergeCount_simps [simp]:
  "get_mergeCount (h\<lparr>h_objs := os\<rparr>) a = get_mergeCount h a"
  "get_mergeCount (h\<lparr>h_detached := ds\<rparr>) a = get_mergeCount h a"
  "get_mergeCount (addMergeRef h b) a =
     (if a = b \<and> valid_cell h b then get_mergeCount h a + 1 else get_mergeCount h a)"
  "get_mergeCount (releaseMergeRef h b) a =
     (if a = b \<and> valid_cell h b then get_mergeCount h a - 1 else get_mergeCount h a)"
  "get_mergeCount (install h c v) a = get_mergeCount h a"
  "get_mergeCount (put_value h l v) a = get_mergeCount h a"
  by (auto simp: get_mergeCount_def heap_simps)

lemma get_mergeCount_upd_same:
  "(\<And>x. c_mergeCount (f x) = c_mergeCount x) \<Longrightarrow> get_mergeCount (upd_cell h c f) a = get_mergeCount h a"
  by (simp add: get_mergeCount_def heap_simps)

lemma get_mergeCount_upd_value [simp]:
  "get_mergeCount (upd_cell h c (c_value_update f)) a = get_mergeCount h a"
  by (simp add: get_mergeCount_upd_same)

lemma length_cells_tweaks [simp]:
  "length (h_cells (addMergeRef h a)) = length (h_cells h)"
  "length (h_cells (releaseMergeRef h a)) = length (h_cells h)"
  by (simp_all add: addMergeRef_def releaseMergeRef_def)

lemma c_value_tweaks [simp]:
  "c_value (the_cell (addMergeRef h b) c) = c_value (the_cell h c)"
  "c_value (the_cell (releaseMergeRef h b) c) = c_value (the_cell h c)"
  by (simp_all add: heap_simps)

lemma detached_dead_simps [simp]:
  "detached_dead (h\<lparr>h_objs := os\<rparr>) = detached_dead h"
  "detached_dead (upd_cell h c f) = detached_dead h"
  "detached_dead (addMergeRef h a) = detached_dead h"
  "detached_dead (releaseMergeRef h a) = detached_dead h"
  "detached_dead (put_value h (Held c) v) = detached_dead h"
  by (simp_all add: detached_dead_def)

lemma detached_dead_install:
  "detached_dead h \<Longrightarrow> kind (c_value (the_cell h c)) = TMerge \<longrightarrow> released (c_value (the_cell h c)) \<Longrightarrow>
   detached_dead (install h c v)"
  by (simp add: detached_dead_def)

lemma good_dead: "good h \<Longrightarrow> detached_dead h"
  by (simp add: good_def)

text \<open>Allocation and property assignment.\<close>

lemma alloc_good: "good h \<Longrightarrow> good (snd (alloc h ob))"
  by (rule good_cong[of _ h]) (simp_all add: alloc_def)

lemma set_prop_good: "good h \<Longrightarrow> good (heap_of (set_prop h v f x))"
  by (rule good_cong[of _ h]) (cases v; simp)+

lemma set_style_good: "good h \<Longrightarrow> good (heap_of (set_style h c v))"
  by (rule same_good[of h])
     (auto simp: set_style_def heap_simps get_mergeCount_upd_same dest: good_dead)

lemma get_row_good: "good h \<Longrightarrow> good (heap_of (get_row h c))"
  by (rule same_good[of h])
     (auto simp: get_row_def heap_simps get_mergeCount_upd_same dest: good_dead split: option.splits)

lemma get_col_good: "good h \<Longrightarrow> good (heap_of (get_col E h c))"
  by (rule same_good[of h])
     (auto simp: get_col_def heap_simps get_mergeCount_upd_same dest: good_dead split: option.splits)

lemma get_model_good: "good h \<Longrightarrow> good (heap_of (get_model h c))"
  by (rule good_cong[of _ h])
     (cases "model_of (c_value (the_cell h c))"; simp add: get_model_def)+

lemma get_value_heap:
  "h_cells (heap_of (get_value n h c)) = h_cells h \<and> h_detached (heap_of (get_value n h c)) = h_detached h"
proof (induction n arbitrary: c)
  case 0
  then show ?case by simp
next
  case (Suc n)
  show ?case
  proof (cases "c_value (the_cell h c)")
    case (MergeValue m a rl)
    with Suc show ?thesis by (cases a) auto
  qed (auto simp: alloc_def split: sum.splits)
qed

lemma get_value_good: "good h \<Longrightarrow> good (heap_of (get_value n h c))"
  using get_value_heap[of n h c] by (auto intro: good_cong)

text \<open>A new cell.\<close>

lemma new_Cell_good:
  assumes "good h"
  shows "good (heap_of (new_Cell E h row address))"
proof (cases "truthy row \<and> validateAddress E address")
  case False
  with assms show ?thesis by (auto simp: new_Cell_def)
next
  case True
  let ?L = "\<lambda>h. map (\<lambda>x. live_master (c_value x)) (h_cells h)"
  let ?g = "heap_of (new_Cell E h row address)"
  from True have L: "?L ?g = ?L h @ [None]" and d: "h_detached ?g = h_detached h"
    and cs: "map c_mergeCount (h_cells ?g) = map c_mergeCount (h_cells h) @ [0]"
    by (simp_all add: new_Cell_def alloc_def)
  from assms have dd: "detached_dead h"
    and ih: "\<And>a. valid_cell h a \<Longrightarrow> get_mergeCount h a = int (count_list (?L h) (Some a))"
    and mv: "\<And>d a. valid_cell h d \<Longrightarrow> live_master (c_value (the_cell h d)) = Some a \<Longrightarrow> valid_cell h a"
    unfolding good_alt by blast+
  have n: "count_list (?L h) (Some (length (h_cells h))) = 0"
  proof -
    have "Some (length (h_cells h)) \<notin> set (?L h)"
    proof
      assume "Some (length (h_cells h)) \<in> set (?L h)"
      then obtain i where i: "i < length (h_cells h)"
        and "live_master (c_value (h_cells h ! i)) = Some (length (h_cells h))"
        by (auto simp: in_set_conv_nth)
      with mv[of i "length (h_cells h)"] show False by (simp add: valid_cell_def the_cell_def)
    qed
    then show ?thesis unfolding count_list_0_iff .
  qed
  have len: "length (h_cells ?g) = Suc (length (h_cells h))"
    using arg_cong[OF L, of length] by simp
  have cnt: "\<And>a. a < Suc (length (h_cells h)) \<Longrightarrow>
      get_mergeCount ?g a = (if a < length (h_cells h) then get_mergeCount h a else 0)"
  proof -
    fix a assume a: "a < Suc (length (h_cells h))"
    have "get_mergeCount ?g a = map c_mergeCount (h_cells ?g) ! a"
      using a len by (simp add: get_mergeCount_def the_cell_def)
    also have "\<dots> = (if a < length (h_cells h) then get_mergeCount h a else 0)"
      unfolding cs using a by (auto simp: nth_append get_mergeCount_def the_cell_def less_Suc_eq)
    finally show "get_mergeCount ?g a = (if a < length (h_cells h) then get_mergeCount h a else 0)" .
  qed
  have lm: "\<And>a. a < Suc (length (h_cells h)) \<Longrightarrow>
      live_master (c_value (the_cell ?g a)) = (if a < length (h_cells h) then live_master (c_value (the_cell h a)) else None)"
  proof -
    fix a assume a: "a < Suc (length (h_cells h))"
    have "live_master (c_value (the_cell ?g a)) = ?L ?g ! a"
      using a len by (simp add: the_cell_def)
    also have "\<dots> = (if a < length (h_cells h) then live_master (c_value (the_cell h a)) else None)"
      unfolding L using a by (auto simp: nth_append the_cell_def less_Suc_eq)
    finally show "live_master (c_value (the_cell ?g a)) = (if a < length (h_cells h) then live_master (c_value (the_cell h a)) else None)" .
  qed
  show ?thesis
    unfolding good_alt
  proof (intro conjI allI impI)
    show "detached_dead ?g" using dd d by (simp add: detached_dead_def)
  next
    fix a assume "valid_cell ?g a"
    then have a: "a < Suc (length (h_cells h))" by (simp add: valid_cell_def len)
    show "get_mergeCount ?g a = int (count_list (?L ?g) (Some a))"
    proof (cases "a < length (h_cells h)")
      case True
      with cnt[OF a] ih[of a] show ?thesis unfolding L by (simp add: valid_cell_def)
    next
      case False
      with a have "a = length (h_cells h)" by simp
      with cnt[OF a] n show ?thesis unfolding L by simp
    qed
  next
    fix d a assume x: "valid_cell ?g d \<and> live_master (c_value (the_cell ?g d)) = Some a"
    then have dl: "d < Suc (length (h_cells h))" by (simp add: valid_cell_def len)
    from x lm[OF dl] have "d < length (h_cells h)" and "live_master (c_value (the_cell h d)) = Some a"
      by (auto split: if_splits)
    with mv[of d a] have "valid_cell h a" by (simp add: valid_cell_def)
    then show "valid_cell ?g a" by (simp add: valid_cell_def len)
  qed
qed

text \<open>\<open>release\<close> on a Value that has not been released.\<close>

lemma release_value_dead:
  "release_value h l = Ok u h1 \<Longrightarrow> valid_loc h l \<Longrightarrow>
   kind (value_at h1 l) = TMerge \<longrightarrow> released (value_at h1 l)"
proof (cases "value_at h l")
  case (MergeValue m a rl)
  assume "release_value h l = Ok u h1" "valid_loc h l"
  with MergeValue show ?thesis
    by (cases a; cases l) (auto simp: release_value_def heap_simps)
qed (simp_all add: release_value_not_Merge)

lemma release_value_Err: "release_value h l = Err e h1 \<Longrightarrow> h1 = h"
  by (cases "value_at h l"; cases "master_of (value_at h l)")
     (auto simp: release_value_def)

lemma release_value_valid:
  "release_value h l = Ok u h1 \<Longrightarrow> valid_cell h1 c = valid_cell h c"
  using release_value_Ok_objs[of h l u h1] by (simp add: valid_cell_def)

lemma release_Held_good:
  assumes g: "good h" and vc: "valid_cell h c" and live: "\<not> released (c_value (the_cell h c))"
  shows "good (heap_of (release_value h (Held c)))"
proof (cases "c_value (the_cell h c)")
  case (MergeValue m a rl)
  with live have rl: "rl = False" by simp
  show ?thesis
  proof (cases a)
    case None
    with MergeValue g show ?thesis by (simp add: release_value_def)
  next
    case (Some b)
    have e: "heap_of (release_value h (Held c)) =
        put_value (releaseMergeRef h b) (Held c) (MergeValue m (Some b) True)"
      using MergeValue Some by (simp add: release_value_Merge)
    show ?thesis
      unfolding e
    proof (rule swap_good[OF g vc, where N = None])
      show "detached_dead (put_value (releaseMergeRef h b) (Held c) (MergeValue m (Some b) True))"
        using g by (simp add: good_def)
    qed (use MergeValue Some rl vc in \<open>auto simp: heap_simps\<close>)
  qed
qed (use g in \<open>simp_all add: release_value_not_Merge\<close>)

lemma release_Detached_good:
  assumes g: "good h" and vl: "i < length (h_detached h)" and live: "\<not> released (h_detached h ! i)"
  shows "good (heap_of (release_value h (Detached i)))"
proof -
  from g vl live have "kind (value_at h (Detached i)) \<noteq> TMerge"
    by (auto simp: good_def detached_dead_def)
  then show ?thesis using g by (simp add: release_value_not_Merge)
qed

lemma release_value_good:
  "good h \<Longrightarrow> valid_loc h l \<Longrightarrow> \<not> released (value_at h l) \<Longrightarrow> good (heap_of (release_value h l))"
  by (cases l) (simp_all add: release_Held_good release_Detached_good del: heap_of.simps)

text \<open>The Value the factory creates, installed in place of one that is no live Merge
  variant.\<close>

lemma create_effect:
  "create h ty c v master = Ok nv h2 \<Longrightarrow>
   \<exists>os. h2 = (case live_master nv of None \<Rightarrow> h\<lparr>h_objs := os\<rparr>
                                    | Some b \<Rightarrow> addMergeRef (h\<lparr>h_objs := os\<rparr>) b)
       \<and> (\<forall>b. live_master nv = Some b \<longrightarrow> master = Some b)"
  by (auto simp: create_def new_defs alloc_def split: option.splits ValueType.splits sum.splits)

lemma install_good:
  assumes g: "good h" and vc: "valid_cell h c"
    and dead: "kind (c_value (the_cell h c)) = TMerge \<longrightarrow> released (c_value (the_cell h c))"
    and h2: "h2 = (case live_master nv of None \<Rightarrow> h\<lparr>h_objs := os\<rparr>
                                         | Some b \<Rightarrow> addMergeRef (h\<lparr>h_objs := os\<rparr>) b)"
    and newv: "\<And>b. live_master nv = Some b \<Longrightarrow> valid_cell h b"
    and nv': "live_master nv' = live_master nv"
  shows "good (install h2 c nv')"
proof (rule swap_good[OF g vc, where N = "live_master nv"])
  have cv: "\<And>x. c_value (the_cell h2 x) = c_value (the_cell h x)"
    unfolding h2 by (simp split: option.splits)
  have v2: "\<And>x. valid_cell h2 x = valid_cell h x"
    unfolding h2 by (simp split: option.splits)
  show "length (h_cells (install h2 c nv')) = length (h_cells h)"
    unfolding h2 by (simp add: addMergeRef_def split: option.splits)
  show "detached_dead (install h2 c nv')"
  proof (rule detached_dead_install)
    show "detached_dead h2" unfolding h2 using g by (simp add: good_def split: option.splits)
    show "kind (c_value (the_cell h2 c)) = TMerge \<longrightarrow> released (c_value (the_cell h2 c))"
      using dead by (simp add: cv)
  qed
  from live_master_dead[OF dead] have old: "live_master (c_value (the_cell h c)) = None" .
  fix x assume vx: "valid_cell h x"
  show "live_master (c_value (the_cell (install h2 c nv') x)) =
      (if x = c then live_master nv else live_master (c_value (the_cell h x)))"
    using vc by (simp add: heap_simps v2 cv nv')
  show "get_mergeCount (install h2 c nv') x =
      get_mergeCount h x - (if live_master (c_value (the_cell h c)) = Some x then 1 else 0)
        + (if live_master nv = Some x then 1 else 0)"
    unfolding h2 old using vx by (auto split: option.splits)
next
  fix b assume "live_master nv = Some b"
  then show "valid_cell h b" by (rule newv)
qed

lemma create_install_good:
  assumes g: "good h" and vc: "valid_cell h c"
    and dead: "kind (c_value (the_cell h c)) = TMerge \<longrightarrow> released (c_value (the_cell h c))"
    and cr: "create h ty c v master = Ok nv h2"
    and vm: "\<And>b. master = Some b \<Longrightarrow> valid_cell h b"
    and nv': "live_master nv' = live_master nv"
  shows "good (install h2 c nv')"
proof -
  from create_effect[OF cr] obtain os where
    h2: "h2 = (case live_master nv of None \<Rightarrow> h\<lparr>h_objs := os\<rparr>
                                     | Some b \<Rightarrow> addMergeRef (h\<lparr>h_objs := os\<rparr>) b)"
    and m: "\<And>b. live_master nv = Some b \<Longrightarrow> master = Some b" by blast
  show ?thesis
    by (rule install_good[OF g vc dead h2 _ nv']) (use m vm in blast)
qed

lemma release_step:
  assumes g: "good h" and vc: "valid_cell h c" and live: "\<not> released (c_value (the_cell h c))"
    and r: "release_value h (Held c) = Ok u h1"
  shows "good h1" "valid_cell h1 c"
    "kind (c_value (the_cell h1 c)) = TMerge \<longrightarrow> released (c_value (the_cell h1 c))"
    "\<And>x. valid_cell h1 x = valid_cell h x"
proof -
  from release_Held_good[OF g vc live] r show "good h1" by simp
  show "\<And>x. valid_cell h1 x = valid_cell h x" using release_value_valid[OF r] .
  then show "valid_cell h1 c" using vc by simp
  from release_value_dead[OF r] vc
  show "kind (c_value (the_cell h1 c)) = TMerge \<longrightarrow> released (c_value (the_cell h1 c))" by simp
qed

lemma merge_good:
  assumes g: "good h" and live: "\<not> released (value_at h (Held c))"
  shows "good (heap_of (merge h c master))"
proof (cases "valid_cell h c \<and> (\<forall>a. master = Some a \<longrightarrow> valid_cell h a)")
  case False
  with g show ?thesis by (auto simp: merge_def)
next
  case True
  then have vc: "valid_cell h c"
    and nc: "\<not> (\<not> valid_cell h c \<or> (\<exists>a. master = Some a \<and> \<not> valid_cell h a))" by auto
  from live have lv: "\<not> released (c_value (the_cell h c))" by simp
  show ?thesis
  proof (cases "release_value h (Held c)")
    case (Err e h1)
    with release_value_Err[OF Err] g show ?thesis by (simp only: merge_def nc if_False res.case heap_of.simps)
  next
    case (Ok u h1)
    note rs = release_step[OF g vc lv Ok]
    show ?thesis
    proof (cases "create h1 (JTag TMerge) c JUndefined master")
      case (Err e h2)
      with create_Err[OF Err] rs(1) show ?thesis
        by (simp only: merge_def nc if_False Ok res.case heap_of.simps)
    next
      case cr: (Ok nv h2)
      have "good (install h2 c nv)"
        by (rule create_install_good[OF rs(1,2,3) cr]) (use True rs(4) in auto)
      then show ?thesis by (simp only: merge_def nc if_False Ok cr res.case heap_of.simps)
    qed
  qed
qed

lemma unmerge_good:
  assumes g: "good h" and live: "\<not> released (value_at h (Held c))"
  shows "good (heap_of (unmerge h c))"
proof (cases "valid_cell h c \<and> get_type h c = TMerge")
  case False
  with g show ?thesis by (auto simp: unmerge_def)
next
  case True
  then have vc: "valid_cell h c" by simp
  from live have lv: "\<not> released (c_value (the_cell h c))" by simp
  show ?thesis
  proof (cases "release_value h (Held c)")
    case (Err e h1)
    with release_value_Err[OF Err] True g show ?thesis by (simp add: unmerge_def)
  next
    case (Ok u h1)
    note rs = release_step[OF g vc lv Ok]
    show ?thesis
    proof (cases "create h1 (JTag TNull) c JUndefined None")
      case (Err e h2)
      with create_Err[OF Err] Ok True rs(1) show ?thesis by (simp add: unmerge_def)
    next
      case cr: (Ok nv h2)
      have "good (install h2 c nv)"
        by (rule create_install_good[OF rs(1,2,3) cr]) auto
      with True Ok cr show ?thesis by (simp add: unmerge_def)
    qed
  qed
qed

lemma set_value_good: "good h \<Longrightarrow> good (heap_of (set_value n h c v))"
proof (induction n arbitrary: c)
  case 0
  then show ?case by simp
next
  case (Suc n)
  show ?case
  proof (cases "valid_cell h c \<and> get_type h c \<noteq> TMerge")
    case True
    then have r: "release_value h (Held c) = Ok () h"
      and k: "kind (c_value (the_cell h c)) \<noteq> TMerge"
      by (simp_all add: release_value_not_Merge get_type_def)
    show ?thesis
    proof (cases "getType h v")
      case (Inl e)
      with True r Suc.prems show ?thesis by simp
    next
      case (Inr t)
      show ?thesis
      proof (cases "create h (JTag t) c v None")
        case (Err e h2)
        with create_Err[OF Err] True r Inr Suc.prems show ?thesis by simp
      next
        case cr: (Ok nv h2)
        have "good (install h2 c nv)"
          by (rule create_install_good[OF Suc.prems _ _ cr]) (use True k in auto)
        with True r Inr cr show ?thesis by simp
      qed
    qed
  next
    case False
    with Suc show ?thesis
      by (auto split: option.splits)
  qed
qed

lemma upgrade_good: "good h \<Longrightarrow> good (heap_of (upgradeToHyperlink h c k))"
proof (cases "valid_cell h c \<and> get_type h c = TString")
  case False
  assume "good h"
  with False show ?thesis by (auto simp: upgradeToHyperlink_def)
next
  case True
  assume g: "good h"
  let ?h1 = "h\<lparr>h_objs := h_objs h @ [[(''text'', JUndefined), (''hyperlink'', k)]]\<rparr>"
  let ?p = "JObj (length (h_objs h))"
  have g1: "good ?h1" using alloc_good[OF g, of "[(''text'', JUndefined), (''hyperlink'', k)]"]
    by (simp add: alloc_def)
  have v1: "valid_cell ?h1 c" and k1: "kind (c_value (the_cell ?h1 c)) \<noteq> TMerge"
    using True by (simp_all add: get_type_def)
  show ?thesis
  proof (cases "create ?h1 (JTag THyperlink) c ?p None")
    case (Err e h2)
    with create_Err[OF Err] True g1 show ?thesis
      by (simp add: upgradeToHyperlink_def alloc_def)
  next
    case cr: (Ok nv h2)
    have "good (install h2 c nv)"
      by (rule create_install_good[OF g1 v1 _ cr]) (use k1 in auto)
    with True cr show ?thesis by (simp add: upgradeToHyperlink_def alloc_def)
  qed
qed

lemma set_model_good:
  assumes g: "good h" and live: "\<not> released (value_at h (Held c))"
  shows "good (heap_of (set_model h c v))"
proof (cases "valid_cell h c")
  case False
  with g show ?thesis by (simp add: set_model_def)
next
  case vc: True
  from live have lv: "\<not> released (c_value (the_cell h c))" by simp
  show ?thesis
  proof (cases "release_value h (Held c)")
    case (Err e h1)
    with release_value_Err[OF Err] vc g show ?thesis by (simp add: set_model_def)
  next
    case (Ok u h1)
    note rs = release_step[OF g vc lv Ok]
    show ?thesis
    proof (cases "get_prop h1 v ''type''")
      case (Inl e)
      with vc Ok rs(1) show ?thesis by (simp add: set_model_def)
    next
      case (Inr ty)
      show ?thesis
      proof (cases "create h1 ty c JUndefined None")
        case (Err e h2)
        with create_Err[OF Err] vc Ok Inr rs(1) show ?thesis by (simp add: set_model_def)
      next
        case cr: (Ok nv h2)
        let ?k = "install h2 c (with_model nv v)"
        have gk: "good ?k"
          by (rule create_install_good[OF rs(1,2,3) cr]) auto
        have s1: "\<And>st. good (upd_cell ?k c (\<lambda>x. x\<lparr>c_style := st\<rparr>))"
          by (rule same_good[OF gk])
             (use gk in \<open>auto simp: the_cell_upd_if get_mergeCount_upd_same good_def\<close>)
        have s2: "\<And>st os. good (upd_cell (?k\<lparr>h_objs := os\<rparr>) c (\<lambda>x. x\<lparr>c_style := st\<rparr>))"
          by (rule same_good[OF gk])
             (use gk in \<open>auto simp: the_cell_upd_if get_mergeCount_upd_same good_def\<close>)
        from vc Ok Inr cr gk s1 s2 show ?thesis
          by (simp add: set_model_def alloc_def split: sum.splits)
      qed
    qed
  qed
qed

lemma retarget_good:
  assumes g: "good h" and live: "\<not> released (value_at h l)"
  shows "good (heap_of (MergeValue_set_value n h l (Inr a)))"
proof (cases "valid_loc h l \<and> valid_cell h a")
  case False
  with g show ?thesis by (auto simp: MergeValue_set_value_def)
next
  case True
  show ?thesis
  proof (cases "value_at h l")
    case (MergeValue m old rl)
    with live have rl: "rl = False" by simp
    show ?thesis
    proof (cases l)
      case (Detached i)
      with True have "h_detached h ! i \<in> set (h_detached h)" by simp
      with g have "kind (h_detached h ! i) = TMerge \<longrightarrow> released (h_detached h ! i)"
        unfolding good_def detached_dead_def by blast
      with MergeValue rl Detached have False by simp
      then show ?thesis ..
    next
      case (Held c)
      with True have vc: "valid_cell h c" by simp
      let ?h1 = "case old of None \<Rightarrow> h | Some b \<Rightarrow> releaseMergeRef h b"
      have e: "heap_of (MergeValue_set_value n h l (Inr a)) =
          put_value (addMergeRef ?h1 a) (Held c) (MergeValue m (Some a) False)"
        using True MergeValue rl Held by (simp add: MergeValue_set_value_def)
      have cv: "c_value (the_cell h c) = MergeValue m old False"
        using MergeValue Held rl by simp
      show ?thesis
        unfolding e
      proof (rule swap_good[OF g vc, where N = "Some a"])
        show "detached_dead (put_value (addMergeRef ?h1 a) (Held c) (MergeValue m (Some a) False))"
          using g by (simp add: good_def split: option.splits)
        show "length (h_cells (put_value (addMergeRef ?h1 a) (Held c) (MergeValue m (Some a) False)))
            = length (h_cells h)"
          by (simp split: option.splits)
      next
        fix x assume vx: "valid_cell h x"
        show "live_master (c_value (the_cell (put_value (addMergeRef ?h1 a) (Held c)
                (MergeValue m (Some a) False)) x)) =
            (if x = c then Some a else live_master (c_value (the_cell h x)))"
          using vc by (cases old) (simp_all add: the_cell_upd_if)
        show "get_mergeCount (put_value (addMergeRef ?h1 a) (Held c) (MergeValue m (Some a) False)) x =
            get_mergeCount h x - (if live_master (c_value (the_cell h c)) = Some x then 1 else 0)
              + (if Some a = Some x then 1 else 0)"
          using vx True cv by (cases old) auto
      next
        fix b assume "Some a = Some b"
        with True show "valid_cell h b" by simp
      qed
    qed
  qed (use g True in \<open>simp_all add: MergeValue_set_value_def\<close>)
qed

lemma forward_good:
  assumes g: "good h"
  shows "good (heap_of (MergeValue_set_value n h l (Inl v)))"
proof (cases "valid_loc h l")
  case False
  with g show ?thesis by (simp add: MergeValue_set_value_def)
next
  case True
  show ?thesis
  proof (cases "value_at h l")
    case (MergeValue m old rl)
    with True g set_value_good[OF g] show ?thesis
      by (cases old) (simp_all add: MergeValue_set_value_def)
  qed (use g True in \<open>simp_all add: MergeValue_set_value_def\<close>)
qed

lemma reach_good: "reach E h \<Longrightarrow> good h"
proof (induction rule: reach.induct)
  case r_start
  show ?case
    by (simp add: good_def merge_inv_def masters_valid_def detached_dead_def)
next
  case (r_alloc h ob)
  then show ?case by (simp add: alloc_good)
next
  case (r_set_prop h v f x)
  then show ?case by (simp add: set_prop_good)
next
  case (r_set_style h c v)
  then show ?case by (simp add: set_style_good)
next
  case (r_new_Cell h row address)
  then show ?case by (simp add: new_Cell_good)
next
  case (r_merge h c master)
  then show ?case by (simp add: merge_good)
next
  case (r_unmerge h c)
  then show ?case by (simp add: unmerge_good)
next
  case (r_set_value h n c v)
  then show ?case by (simp add: set_value_good)
next
  case (r_set_model h c v)
  then show ?case by (simp add: set_model_good)
next
  case (r_release h l)
  then show ?case by (simp add: release_value_good)
next
  case (r_retarget h l n a)
  then show ?case by (simp add: retarget_good)
next
  case (r_forward h n l v)
  then show ?case by (simp add: forward_good)
next
  case (r_upgrade h c k)
  then show ?case by (simp add: upgrade_good)
next
  case (r_get_value h n c)
  then show ?case by (simp add: get_value_good)
next
  case (r_get_model h c)
  then show ?case by (simp add: get_model_good)
next
  case (r_get_row h c)
  then show ?case by (simp add: get_row_good)
next
  case (r_get_col h c)
  then show ?case by (simp add: get_col_good)
qed

lemma retarget_counts:
  assumes "valid_loc h l" and "valid_cell h a" and "valid_cell h b" and "a \<noteq> b"
    and "value_at h l = MergeValue m (Some a) rl"
  shows "MergeValue_set_value n h l (Inr b) = Ok () (heap_of (MergeValue_set_value n h l (Inr b)))
     \<and> get_mergeCount (heap_of (MergeValue_set_value n h l (Inr b))) a = get_mergeCount h a - 1
     \<and> get_mergeCount (heap_of (MergeValue_set_value n h l (Inr b))) b = get_mergeCount h b + 1
     \<and> master_of (value_at (heap_of (MergeValue_set_value n h l (Inr b))) l) = Some b"
  using assms
  by (cases l) (simp_all add: MergeValue_set_value_def heap_simps)

text \<open>The example heap with three cells is reachable.\<close>

lemma reach_h_ABC: "reach E0 h_ABC"
proof -
  have r0: "reach E0 \<lparr>h_objs = [], h_cells = [], h_detached = []\<rparr>" by (rule r_start)
  have r1: "reach E0 h_row"
    using r_alloc[OF r0, of "[]"] by (simp add: alloc_def h_row_def)
  have r2: "reach E0 h_A"
    unfolding h_A_def by (rule r_new_Cell[OF r1])
  have r3: "reach E0 h_AB"
    unfolding h_AB_def by (rule r_new_Cell[OF r2])
  have "\<not> released (value_at h_AB (Held 1))" by (simp add: run_defs)
  from r_merge[OF r3 this] have r4: "reach E0 h_merged"
    unfolding h_merged_def .
  show ?thesis
    unfolding h_ABC_def by (rule r_new_Cell[OF r4])
qed
section \<open>The claims\<close>

text \<open>C6. \<open>Value.getType\<close> classifies a payload in this order: \<open>null\<close> and \<open>undefined\<close> are
  Null, a string is String, a number is Number, a Date is Date; an object whose \<open>text\<close> and
  \<open>hyperlink\<close> are both truthy (for strings: non-empty) is Hyperlink, whatever else it holds;
  failing that, an object whose \<open>formula\<close> is truthy is Formula; any other object, and a
  boolean, fails with UnrecognizedType. No payload is classified as Merge.\<close>

theorem getType_priority:
  "getType h JNull = Inr TNull \<and> getType h JUndefined = Inr TNull
   \<and> getType h (JStr s) = Inr TString
   \<and> getType h (JNum n) = Inr TNumber
   \<and> getType h (JDate d) = Inr TDate
   \<and> (r < length (h_objs h) \<longrightarrow>
        getType h (JObj r) =
          (if truthy (field_of (h_objs h ! r) ''text'') \<and> truthy (field_of (h_objs h ! r) ''hyperlink'')
           then Inr THyperlink
           else if truthy (field_of (h_objs h ! r) ''formula'') then Inr TFormula
           else Inl UnrecognizedType))
   \<and> getType h (JBool b) = Inl UnrecognizedType
   \<and> getType h v \<noteq> Inr TMerge"
proof -
  have "getType h v \<noteq> Inr TMerge"
    by (cases v) (auto simp: getType_def split: sum.splits if_splits)
  then show ?thesis
    by (auto simp: getType_def)
qed

text \<open>The payloads of the spec's examples: \<open>{text: "a", hyperlink: "b"}\<close> is a Hyperlink,
  \<open>{formula: "A1+1"}\<close> a Formula, \<open>{text: "", hyperlink: "b"}\<close> is rejected, and an object
  with all three properties is a Hyperlink.\<close>

theorem getType_priority_witness:
  "getType h_payloads (JObj 0) = Inr THyperlink
   \<and> getType h_payloads (JObj 1) = Inr TFormula
   \<and> getType h_payloads (JObj 2) = Inl UnrecognizedType
   \<and> getType h_payloads (JObj 3) = Inr THyperlink"
  using getType_priority[of h_payloads "[]" 0 0 0 True JNull]
     getType_priority[of h_payloads "[]" 0 0 1 True JNull]
     getType_priority[of h_payloads "[]" 0 0 2 True JNull]
     getType_priority[of h_payloads "[]" 0 0 3 True JNull]
  by (simp add: h_payloads_def field_of_def)

text \<open>C8, as amended. For every formula text, \<open>dependencies\<close> first extracts all the
  range references (optional \<open>sheet!\<close> prefix, 1 to 3 column letters, 1 to 4 row digits,
  colon, column letters, row digits): read from the left, each the longest range that
  starts at the first place where one starts, until none starts in what is left. It then
  extracts the single-cell references, in the same way, from the text that remains, which
  is the pieces between the ranges joined in their order. No character of a range is in
  the text searched for cells; but a cell reference may be read across the place where a
  range was taken out. Each of \<open>ranges\<close> and \<open>cells\<close> is \<open>null\<close> when nothing was
  extracted and the list of what was extracted otherwise. For \<open>SUM(A1:A3)+B2\<close> the ranges
  are \<open>["A1:A3"]\<close> and the cells \<open>["B2"]\<close>.\<close>

theorem dependencies_ranges_before_cells:
  "(\<exists>rs cs rem rem'.
       extracted range_shape f rs rem \<and> extracted cell_shape rem cs rem'
     \<and> ranges (dependencies_of f) = (if rs = [] then None else Some rs)
     \<and> cells (dependencies_of f) = (if cs = [] then None else Some cs))
   \<and> dependencies_of ''SUM(A1:A3)+B2'' = \<lparr>ranges = Some [''A1:A3''], cells = Some [''B2'']\<rparr>"
proof
  let ?rs = "scan range_rx f" and ?rem = "strip range_rx f"
  let ?cs = "scan cell_rx ?rem" and ?rem' = "strip cell_rx ?rem"
  have r: "ranges (dependencies_of f) = (if ?rs = [] then None else Some ?rs)"
    by (simp add: dependencies_of_def js_match_g_def split: list.splits)
  have c: "cells (dependencies_of f) = (if ?cs = [] then None else Some ?cs)"
    by (simp add: dependencies_of_def js_match_g_def split: list.splits)
  from ranges_extracted[of f] cells_extracted[of ?rem] r c
  show "\<exists>rs cs rem rem'.
       extracted range_shape f rs rem \<and> extracted cell_shape rem cs rem'
     \<and> ranges (dependencies_of f) = (if rs = [] then None else Some rs)
     \<and> cells (dependencies_of f) = (if cs = [] then None else Some cs)"
    by blast
  show "dependencies_of ''SUM(A1:A3)+B2'' = \<lparr>ranges = Some [''A1:A3''], cells = Some [''B2'']\<rparr>"
    by (simp add: dependencies_of_def js_match_g_def rx_defs)
qed

text \<open>For \<open>SUM(A1:A3)+B2\<close>: the one range extracted is \<open>A1:A3\<close>, and the one cell
  extracted from what remains is \<open>B2\<close>.\<close>

theorem dependencies_ranges_before_cells_witness:
  "\<exists>rem rem'. extracted range_shape ''SUM(A1:A3)+B2'' [''A1:A3''] rem
       \<and> extracted cell_shape rem [''B2''] rem'"
proof -
  have d: "dependencies_of ''SUM(A1:A3)+B2'' = \<lparr>ranges = Some [''A1:A3''], cells = Some [''B2'']\<rparr>"
    by (simp add: dependencies_of_def js_match_g_def rx_defs)
  from dependencies_ranges_before_cells[of "''SUM(A1:A3)+B2''"]
  obtain rs cs rem rem' where e: "extracted range_shape ''SUM(A1:A3)+B2'' rs rem"
      "extracted cell_shape rem cs rem'"
    and r: "ranges (dependencies_of ''SUM(A1:A3)+B2'') = (if rs = [] then None else Some rs)"
    and c: "cells (dependencies_of ''SUM(A1:A3)+B2'') = (if cs = [] then None else Some cs)"
    by blast
  from r d have "rs = [''A1:A3'']" by (simp split: if_splits)
  moreover from c d have "cs = [''B2'']" by (simp split: if_splits)
  ultimately show ?thesis using e by blast
qed

text \<open>C8 as stated fails in two ways. A formula without a range has \<open>ranges = null\<close>, and
  one without a single cell outside its ranges has \<open>cells = null\<close>, where the claim
  promises an empty collection. And in \<open>ABCABC1:D22221\<close> the range is \<open>ABC1:D2222\<close>; what
  remains is \<open>ABC\<close> and \<open>1\<close>, joined to \<open>ABC1\<close>, so the cell \<open>ABC1\<close>, which the text holds
  only as the first corner of the range, is counted as a cell dependency as well.\<close>

theorem dependencies_null_counterexample:
  "ranges (dependencies_of ''B2+1'') = None \<and> cells (dependencies_of ''SUM(A1:A3)'') = None
   \<and> dependencies_of ''ABCABC1:D22221'' = \<lparr>ranges = Some [''ABC1:D2222''], cells = Some [''ABC1'']\<rparr>"
  by (simp add: dependencies_of_def js_match_g_def rx_defs)

text \<open>C9. The claim holds for \<open>col\<close> and fails for \<open>row\<close>: the constructor stores the owning
  Row in \<open>_row\<close>, the field the \<open>row\<close> getter uses as its cache, so the getter never parses
  the address and returns the Row object the cell was constructed with.\<close>

theorem row_getter_returns_owner:
  "new_Cell E h row address = Ok c h1 \<Longrightarrow> get_row h1 c = Ok row h1"
  by (auto simp: new_Cell_def get_row_def alloc_def valid_cell_def the_cell_def split: if_splits)

theorem row_getter_returns_owner_witness:
  "new_Cell E0 h_row (JObj 0) ''C7'' = Ok 0 (heap_of (new_Cell E0 h_row (JObj 0) ''C7''))
   \<and> get_row (heap_of (new_Cell E0 h_row (JObj 0) ''C7'')) 0
       = Ok (JObj 0) (heap_of (new_Cell E0 h_row (JObj 0) ''C7''))
   \<and> JObj 0 \<noteq> JNum 7"
proof -
  have n: "new_Cell E0 h_row (JObj 0) ''C7'' = Ok 0 (heap_of (new_Cell E0 h_row (JObj 0) ''C7''))"
    by (simp add: new_Cell_def E0_def h_row_def alloc_def)
  from n row_getter_returns_owner[OF n] show ?thesis by simp
qed

text \<open>The \<open>col\<close> getter does what C9 says: on a new cell it computes the column number
  from the first run of capital letters of the address and stores it in \<open>_col\<close>.\<close>

lemma col_getter_parses:
  "new_Cell E h row address = Ok c h1 \<Longrightarrow>
   js_match_first [A (Rep Upper 1 None)] address = Some ls \<Longrightarrow>
   get_col E h1 c = Ok (JNum (l2n E ls)) (upd_cell h1 c (\<lambda>x. x\<lparr>c_col := JNum (l2n E ls)\<rparr>))"
  by (auto simp: new_Cell_def get_col_def alloc_def valid_cell_def the_cell_def split: if_splits)

text \<open>C7. The claim fails for a Formula whose result is present and falsy: after
  \<open>cell.value = {formula: "A1-A1", result: 0}\<close> the cell is a Formula whose snapshot holds
  the result \<open>0\<close>, and \<open>toCsvString\<close> renders the empty string, not \<open>"0"\<close>.\<close>

theorem formula_zero_result_csv:
  "set_value 1 h_A_formula 0 (JObj 3) = Ok () (heap_of (set_value 1 h_A_formula 0 (JObj 3)))
   \<and> get_type (heap_of (set_value 1 h_A_formula 0 (JObj 3))) 0 = TFormula
   \<and> get_prop (heap_of (set_value 1 h_A_formula 0 (JObj 3)))
        (model_of (c_value (the_cell (heap_of (set_value 1 h_A_formula 0 (JObj 3))) 0))) ''result''
      = Inr (JNum 0)
   \<and> toCsvString E (heap_of (set_value 1 h_A_formula 0 (JObj 3))) 0 = Inr (JStr [])"
  by (simp add: h_A_formula_def run_defs toCsvString_def)

text \<open>The rest of C7 holds: Null and Merge render as the empty string, a number as its
  decimal string, a string in double quotes with every double quote doubled, a Date as
  \<open>toISOString\<close> gives it, a Hyperlink as its \<open>hyperlink\<close> alone, a Formula as its result
  when that is truthy and as the empty string when it is absent.\<close>

lemma toCsvString_variants:
  "(c_value (the_cell h c) = NullValue m \<longrightarrow> toCsvString E h c = Inr (JStr []))
   \<and> (c_value (the_cell h c) = MergeValue m a rl \<longrightarrow> toCsvString E h c = Inr (JStr []))
   \<and> (c_value (the_cell h c) = NumberValue m \<and> get_prop h m ''value'' = Inr (JNum n) \<longrightarrow>
        toCsvString E h c = Inr (JStr (show_int n)))
   \<and> (c_value (the_cell h c) = StringValue m \<and> get_prop h m ''value'' = Inr (JStr s) \<longrightarrow>
        toCsvString E h c = Inr (JStr ([CHR 0x22] @ double_quotes s @ [CHR 0x22])))
   \<and> (c_value (the_cell h c) = DateValue m \<and> get_prop h m ''value'' = Inr (JDate d) \<longrightarrow>
        toCsvString E h c = Inr (JStr (toISOString E d)))
   \<and> (c_value (the_cell h c) = HyperlinkValue m \<longrightarrow>
        toCsvString E h c = get_prop h m ''hyperlink'')
   \<and> (c_value (the_cell h c) = FormulaValue m \<and> get_prop h m ''result'' = Inr x \<and> truthy x \<longrightarrow>
        toCsvString E h c = Inr (JStr (js_to_string E x)))
   \<and> (c_value (the_cell h c) = FormulaValue m \<and> get_prop h m ''result'' = Inr JUndefined \<longrightarrow>
        toCsvString E h c = Inr (JStr []))"
  by (simp add: toCsvString_def)

text \<open>The examples of the spec: 42, and \<open>He said "hi"\<close>.\<close>

lemma csv_examples:
  "show_int 42 = ''42''
   \<and> [CHR 0x22] @ double_quotes (''He said '' @ [CHR 0x22] @ ''hi'' @ [CHR 0x22]) @ [CHR 0x22]
       = [CHR 0x22] @ ''He said '' @ [CHR 0x22, CHR 0x22] @ ''hi'' @ [CHR 0x22, CHR 0x22, CHR 0x22]"
  by (simp add: show_int_def double_quotes_def)

text \<open>C3, as amended. On a cell that is not of type Merge, for every payload \<open>x\<close> that type
  inference accepts, with inferred type \<open>T\<close> (one of Null, Number, String, Date, Hyperlink,
  Formula: no payload is inferred Merge), \<open>cell.value = x\<close> succeeds and makes the cell of
  type \<open>T\<close>; reading \<open>cell.value\<close> then returns \<open>null\<close> when \<open>T\<close> is Null (also for
  \<open>x = undefined\<close>), \<open>x\<close> itself when \<open>T\<close> is Number, String or Date, and a new object whose
  \<open>text\<close> and \<open>hyperlink\<close> (\<open>formula\<close> and \<open>result\<close>) equal those of \<open>x\<close> when \<open>T\<close> is
  Hyperlink (Formula).\<close>

theorem value_round_trip:
  assumes "valid_cell h c" and "get_type h c \<noteq> TMerge" and "getType h x = Inr T"
  shows "let h1 = heap_of (set_value (Suc n) h c x);
             h2 = heap_of (get_value (Suc k) h1 c);
             r = JObj (length (h_objs h1))
         in set_value (Suc n) h c x = Ok () h1 \<and> get_type h1 c = T \<and> T \<noteq> TMerge
     \<and> (T = TNull \<longrightarrow> get_value (Suc k) h1 c = Ok JNull h1)
     \<and> (T = TNumber \<or> T = TString \<or> T = TDate \<longrightarrow> get_value (Suc k) h1 c = Ok x h1)
     \<and> (T = THyperlink \<longrightarrow>
          get_value (Suc k) h1 c = Ok r h2
             \<and> get_prop h2 r ''text'' = get_prop h x ''text''
             \<and> get_prop h2 r ''hyperlink'' = get_prop h x ''hyperlink'')
     \<and> (T = TFormula \<longrightarrow>
          get_value (Suc k) h1 c = Ok r h2
             \<and> get_prop h2 r ''formula'' = get_prop h x ''formula''
             \<and> get_prop h2 r ''result'' = get_prop h x ''result'')"
  using assms
  by (cases x)
     (auto simp: Let_def release_value_not_Merge get_type_def getType_def create_def new_defs alloc_def
       valid_cell_def install_def prop_if_truthy_def field_of_def nth_append
       split: sum.splits if_splits)

theorem value_round_trip_witness:
  "valid_cell h_A_link 0 \<and> get_type h_A_link 0 \<noteq> TMerge
   \<and> getType h_A_link (JNum 42) = Inr TNumber
   \<and> get_value 1 (heap_of (set_value 1 h_A_link 0 (JNum 42))) 0
       = Ok (JNum 42) (heap_of (set_value 1 h_A_link 0 (JNum 42)))
   \<and> getType h_A_link (JObj 3) = Inr THyperlink
   \<and> get_prop (heap_of (get_value 1 (heap_of (set_value 1 h_A_link 0 (JObj 3))) 0))
        (JObj (length (h_objs (heap_of (set_value 1 h_A_link 0 (JObj 3)))))) ''hyperlink''
       = Inr (JStr ''http://y'')"
proof -
  have v: "valid_cell h_A_link 0" and t: "get_type h_A_link 0 \<noteq> TMerge"
    by (simp_all add: h_A_link_def run_defs)
  have n: "getType h_A_link (JNum 42) = Inr TNumber"
    by (simp add: getType_def)
  have l: "getType h_A_link (JObj 3) = Inr THyperlink"
    by (simp add: h_A_link_def run_defs)
  have p: "get_prop h_A_link (JObj 3) ''hyperlink'' = Inr (JStr ''http://y'')"
    by (simp add: h_A_link_def run_defs)
  from v t n l p value_round_trip[OF v t n, of 0 0] value_round_trip[OF v t l, of 0 0]
  show ?thesis
    by (simp add: Let_def del: set_value.simps get_value.simps)
qed

text \<open>C3 as stated fails on \<open>undefined\<close>, whose inferred type is Null: the value read back
  is \<open>null\<close>.\<close>

theorem value_round_trip_counterexample:
  "get_type h_A 0 \<noteq> TMerge \<and> getType h_A JUndefined = Inr TNull
   \<and> set_value 1 h_A 0 JUndefined = Ok () (heap_of (set_value 1 h_A 0 JUndefined))
   \<and> get_value 1 (heap_of (set_value 1 h_A 0 JUndefined)) 0
       = Ok JNull (heap_of (set_value 1 h_A 0 JUndefined))
   \<and> JNull \<noteq> JUndefined"
  by (simp add: run_defs)

text \<open>C4, as amended. Let \<open>A\<close> and \<open>B\<close> be two different cells, \<open>B\<close> not merged, \<open>A\<close> with
  merge count 0 and not itself of type Merge. After \<open>B.merge(A)\<close>: \<open>B\<close> has type Merge,
  \<open>A.mergeCount\<close> is 1, \<open>B.master\<close> is \<open>A\<close>, \<open>B.isMergedTo(A)\<close> holds, and reading
  \<open>B.value\<close> is reading \<open>A.value\<close>, one call deeper. Assigning a plain scalar \<open>v\<close> (\<open>null\<close>, a
  string, a number or a Date) to \<open>B.value\<close> then succeeds, after which \<open>A.value\<close> and
  \<open>B.value\<close> read \<open>v\<close>. \<open>B.unmerge()\<close> afterwards leaves \<open>A.mergeCount\<close> 0 and \<open>B\<close> of type
  Null. On any cell whose type is not Merge, \<open>unmerge()\<close> changes nothing.\<close>

theorem merge_then_unmerge:
  assumes "valid_cell h a" and "valid_cell h b" and "a \<noteq> b"
    and "\<not> isMerged h b" and "get_mergeCount h a = 0" and "get_type h a \<noteq> TMerge"
    and "plain_scalar v"
  shows "let h1 = heap_of (merge h b (Some a));
             h2 = heap_of (set_value (Suc (Suc n)) h1 b v);
             h3 = heap_of (unmerge h2 b)
         in merge h b (Some a) = Ok () h1
            \<and> get_type h1 b = TMerge \<and> get_mergeCount h1 a = 1
            \<and> get_master h1 b = Some a \<and> isMergedTo h1 b (Some a)
            \<and> get_value (Suc (Suc k)) h1 b = get_value (Suc k) h1 a
            \<and> set_value (Suc (Suc n)) h1 b v = Ok () h2
            \<and> get_value (Suc k) h2 a = Ok v h2
            \<and> get_value (Suc (Suc k)) h2 b = Ok v h2
            \<and> unmerge h2 b = Ok () h3
            \<and> get_mergeCount h3 a = 0 \<and> get_type h3 b = TNull
            \<and> (\<forall>h' c. valid_cell h' c \<and> get_type h' c \<noteq> TMerge \<longrightarrow> unmerge h' c = Ok () h')"
proof -
  define m where "m = JObj (length (h_objs h))"
  define h1 where "h1 = heap_of (merge h b (Some a))"
  from assms(4) have nb: "get_type h b \<noteq> TMerge" by (simp add: isMerged_def)
  have mg: "merge h b (Some a) = Ok () h1"
    unfolding h1_def by (simp add: merge_onto[OF assms(1,2) nb])
  have va1: "valid_cell h1 a" and vb1: "valid_cell h1 b"
    using assms(1,2) unfolding h1_def by (simp_all add: merge_onto[OF assms(1,2) nb])
  have b1: "c_value (the_cell h1 b) = MergeValue m (Some a) False"
    using assms(1,2,3) unfolding h1_def m_def
    by (simp add: merge_onto[OF assms(1,2) nb] heap_simps)
  have a1: "the_cell h1 a = (the_cell h a)\<lparr>c_mergeCount := 1\<rparr>"
    using assms(1,2,3,5) unfolding h1_def
    by (simp add: merge_onto[OF assms(1,2) nb] heap_simps get_mergeCount_def)
  have ta1: "get_type h1 a \<noteq> TMerge"
    using assms(6) by (simp add: get_type_def a1)
  define h2 where "h2 = heap_of (set_value (Suc (Suc n)) h1 b v)"
  from set_value_plain[OF va1 ta1 assms(7), of n]
  obtain g where g: "set_value (Suc n) h1 a v = Ok () g"
    and gc: "h_cells g = (h_cells h1)[a := (the_cell g a)]"
    and gm: "c_mergeCount (the_cell g a) = c_mergeCount (the_cell h1 a)"
    and gr: "\<forall>k. get_value (Suc k) g a = Ok v g"
    by blast
  have e: "set_value (Suc (Suc n)) h1 b v = Ok () g"
    using set_value_Merge[OF vb1 b1, of "Suc n" v] g by (simp del: set_value.simps)
  have sv: "set_value (Suc (Suc n)) h1 b v = Ok () h2" and h2g: "h2 = g"
    unfolding h2_def by (simp_all add: e del: set_value.simps)
  have va2: "valid_cell h2 a" and vb2: "valid_cell h2 b"
    using va1 vb1 gc unfolding h2g valid_cell_def by (metis length_list_update)+
  have b2: "c_value (the_cell h2 b) = MergeValue m (Some a) False"
    using b1 gc assms(3) unfolding h2g the_cell_def by (metis nth_list_update_neq)
  have a2: "c_mergeCount (the_cell h2 a) = 1"
    using gm a1 unfolding h2g by simp
  define h3 where "h3 = heap_of (unmerge h2 b)"
  have um: "unmerge h2 b = Ok () h3"
    unfolding h3_def by (simp add: unmerge_Merge[OF vb2 b2])
  have a3: "get_mergeCount h3 a = 0"
    using va2 vb2 assms(3) a2 unfolding h3_def
    by (simp add: unmerge_Merge[OF vb2 b2] heap_simps get_mergeCount_def)
  have b3: "get_type h3 b = TNull"
    using va2 vb2 assms(3) unfolding h3_def
    by (simp add: unmerge_Merge[OF vb2 b2] heap_simps get_type_def)
  have rd: "get_value (Suc (Suc k)) h1 b = get_value (Suc k) h1 a"
    by (rule get_value_Merge[OF vb1 b1])
  have rd2: "get_value (Suc (Suc k)) h2 b = Ok v h2"
    using get_value_Merge[OF vb2 b2, of "Suc k"] gr h2g by (simp del: get_value.simps)
  have nop: "\<forall>h' c. valid_cell h' c \<and> get_type h' c \<noteq> TMerge \<longrightarrow> unmerge h' c = Ok () h'"
    by (simp add: unmerge_def)
  have "get_type h1 b = TMerge" "get_mergeCount h1 a = 1" "get_master h1 b = Some a"
       "isMergedTo h1 b (Some a)"
    using b1 a1 by (simp_all add: get_type_def get_mergeCount_def get_master_def isMergedTo_def)
  with mg rd sv gr h2g rd2 um a3 b3 nop show ?thesis
    unfolding Let_def h1_def[symmetric] h2_def[symmetric] h3_def[symmetric]
    by (simp del: get_value.simps set_value.simps)
qed

theorem merge_then_unmerge_witness:
  "valid_cell h_AB 0 \<and> valid_cell h_AB 1 \<and> (0::nat) \<noteq> 1 \<and> \<not> isMerged h_AB 1
   \<and> get_mergeCount h_AB 0 = 0 \<and> get_type h_AB 0 \<noteq> TMerge \<and> plain_scalar (JNum 5)
   \<and> merge h_AB 1 (Some 0) = Ok () h_merged
   \<and> get_mergeCount h_merged 0 = 1
   \<and> get_value (Suc 0) (heap_of (set_value (Suc (Suc 0)) h_merged 1 (JNum 5))) 0
        = Ok (JNum 5) (heap_of (set_value (Suc (Suc 0)) h_merged 1 (JNum 5)))
   \<and> get_mergeCount (heap_of (unmerge (heap_of (set_value (Suc (Suc 0)) h_merged 1 (JNum 5))) 1)) 0 = 0"
proof -
  have hy: "valid_cell h_AB 0" "valid_cell h_AB 1" "(0::nat) \<noteq> 1" "\<not> isMerged h_AB 1"
    "get_mergeCount h_AB 0 = 0" "get_type h_AB 0 \<noteq> TMerge" "plain_scalar (JNum 5)"
    by (simp_all add: run_defs)
  have hm: "heap_of (merge h_AB (Suc 0) (Some 0)) = h_merged"
    by (simp add: h_merged_def)
  from hy merge_then_unmerge[OF hy, of 0 0] show ?thesis
    unfolding Let_def by (simp add: hm del: get_value.simps set_value.simps)
qed

text \<open>C4 as stated fails when \<open>A\<close> and \<open>B\<close> are the same cell, and when \<open>A\<close> is of type
  Merge. A cell that is not merged and is merged onto itself becomes its own master:
  reading its value, and assigning to it, asks the master, which is the cell, and so on
  until the call stack is used up, at every depth. And when \<open>A\<close> is a Merge without a
  master (as a model import leaves it) and has merge count 0, \<open>B.merge(A)\<close> succeeds, but
  reading \<open>B.value\<close> and assigning to it throw a \<open>TypeError\<close>.\<close>

theorem merge_self_counterexample:
  "valid_cell h_A 0 \<and> \<not> isMerged h_A 0 \<and> get_mergeCount h_A 0 = 0
   \<and> merge h_A 0 (Some 0) = Ok () h_self
   \<and> get_value 1000 h_self 0 = Err RangeError h_self
   \<and> set_value 1000 h_self 0 (JNum 5) = Err RangeError h_self
   \<and> valid_cell h_reimported 0 \<and> valid_cell h_reimported 1
   \<and> \<not> isMerged h_reimported 0 \<and> get_mergeCount h_reimported 1 = 0
   \<and> get_type h_reimported 1 = TMerge
   \<and> merge h_reimported 0 (Some 1) = Ok () h_on_Merge
   \<and> get_value (Suc (Suc 0)) h_on_Merge 0 = Err TypeError h_on_Merge
   \<and> set_value (Suc (Suc 0)) h_on_Merge 0 (JNum 5) = Err TypeError h_on_Merge"
proof -
  have a: "valid_cell h_A 0" "\<not> isMerged h_A 0" "get_mergeCount h_A 0 = 0"
    "merge h_A 0 (Some 0) = Ok () h_self"
    by (simp_all add: run_defs h_self_def)
  have b: "valid_cell h_reimported 0" "valid_cell h_reimported 1"
    "\<not> isMerged h_reimported 0" "get_mergeCount h_reimported 1 = 0"
    "get_type h_reimported 1 = TMerge"
    "merge h_reimported 0 (Some 1) = Ok () h_on_Merge"
    by (simp_all add: run_defs h_on_Merge_def)
  have c: "get_value (Suc (Suc 0)) h_on_Merge 0 = Err TypeError h_on_Merge"
    "set_value (Suc (Suc 0)) h_on_Merge 0 (JNum 5) = Err TypeError h_on_Merge"
    by (simp_all add: run_defs h_on_Merge_def)
  from a b c self_merge_reads[of 1000] self_merge_writes[of 1000 "JNum 5"] show ?thesis
    by blast
qed

text \<open>C10. Reading \<open>cell.model\<close> allocates nothing: it returns the reference the Value
  holds as its own snapshot and stores the cell's current style in that snapshot under
  \<open>style\<close>. The key stays (a second read returns the same reference and changes nothing
  more). Whatever is then assigned to a property of the returned snapshot is what the
  cell's Value holds under that property, and whatever is assigned to a property of the
  shared style object is what the cell's style accessor reads.\<close>

theorem model_getter_aliases:
  assumes "valid_cell h c" and "model_of (c_value (the_cell h c)) = JObj r"
    and "r < length (h_objs h)"
  shows "let h1 = heap_of (get_model h c) in
       get_model h c = Ok (JObj r) h1
     \<and> h_cells h1 = h_cells h \<and> length (h_objs h1) = length (h_objs h)
     \<and> map_of (h_objs h1 ! r) ''style'' = Some (c_style (the_cell h1 c))
     \<and> get_prop h1 (model_of (c_value (the_cell h1 c))) ''style'' = Inr (c_style (the_cell h1 c))
     \<and> get_model h1 c = Ok (JObj r) h1
     \<and> (\<forall>f x. set_prop h1 (JObj r) f x = Ok () (heap_of (set_prop h1 (JObj r) f x))
            \<and> get_prop (heap_of (set_prop h1 (JObj r) f x))
                 (model_of (c_value (the_cell (heap_of (set_prop h1 (JObj r) f x)) c))) f = Inr x)
     \<and> (\<forall>s f x. c_style (the_cell h c) = JObj s \<and> s < length (h_objs h) \<longrightarrow>
            set_prop h1 (JObj s) f x = Ok () (heap_of (set_prop h1 (JObj s) f x))
            \<and> get_style_prop (heap_of (set_prop h1 (JObj s) f x)) c f = Inr x)"
  using assms
  by (auto simp: Let_def get_model_def get_style_prop_def valid_cell_def the_cell_def field_of_update
       update_conv' nth_list_update)

text \<open>On a cell holding 42: writing \<open>value = 99\<close> into the snapshot returned by the
  getter makes \<open>cell.value\<close> read 99.\<close>

theorem model_getter_aliases_witness:
  "valid_cell h_A42 0 \<and> model_of (c_value (the_cell h_A42 0)) = JObj 3 \<and> 3 < length (h_objs h_A42)
   \<and> get_model h_A42 0 = Ok (JObj 3) (heap_of (get_model h_A42 0))
   \<and> get_prop (heap_of (get_model h_A42 0)) (JObj 3) ''style'' = Inr (JObj 2)
   \<and> get_value 1 h_A42 0 = Ok (JNum 42) h_A42
   \<and> get_value 1 (heap_of (set_prop (heap_of (get_model h_A42 0)) (JObj 3) ''value'' (JNum 99))) 0
       = Ok (JNum 99) (heap_of (set_prop (heap_of (get_model h_A42 0)) (JObj 3) ''value'' (JNum 99)))
   \<and> get_style_prop
        (heap_of (set_prop (heap_of (get_model h_A42 0)) (JObj 2) ''numFmt'' (JStr ''0.00''))) 0 ''numFmt''
       = Inr (JStr ''0.00'')"
proof -
  have hy: "valid_cell h_A42 0" "model_of (c_value (the_cell h_A42 0)) = JObj 3"
    "3 < length (h_objs h_A42)"
    by (simp_all add: run_defs)
  have st: "c_style (the_cell h_A42 0) = JObj 2 \<and> 2 < length (h_objs h_A42)"
    by (simp add: run_defs)
  have rd: "get_value 1 h_A42 0 = Ok (JNum 42) h_A42"
    by (simp add: run_defs)
  have rd2: "get_value 1 (heap_of (set_prop (heap_of (get_model h_A42 0)) (JObj 3) ''value'' (JNum 99))) 0
       = Ok (JNum 99) (heap_of (set_prop (heap_of (get_model h_A42 0)) (JObj 3) ''value'' (JNum 99)))"
    by (simp add: run_defs)
  have sty: "get_prop (heap_of (get_model h_A42 0)) (JObj 3) ''style'' = Inr (JObj 2)"
    by (simp add: run_defs)
  have nf: "get_style_prop
        (heap_of (set_prop (heap_of (get_model h_A42 0)) (JObj 2) ''numFmt'' (JStr ''0.00''))) 0 ''numFmt''
       = Inr (JStr ''0.00'')"
    by (simp add: run_defs get_style_prop_def)
  from model_getter_aliases[OF hy]
  have g: "get_model h_A42 0 = Ok (JObj 3) (heap_of (get_model h_A42 0))"
    unfolding Let_def by blast
  from hy rd rd2 sty nf g show ?thesis by blast
qed

text \<open>C1, as amended. Setting \<open>cell.value\<close> is atomic: whatever it throws, the heap is as
  it was before the call. Setting \<open>cell.model\<close> is atomic on a cell whose Value holds no
  master, that is, on every cell that is not a Merge slave of some master.\<close>

theorem setters_atomic_on_failure:
  "(set_value n h c v = Err e h' \<longrightarrow> h' = h)
   \<and> (master_of (c_value (the_cell h c)) = None \<and> set_model h c v = Err e h' \<longrightarrow> h' = h)"
  using set_value_Err set_model_Err by blast

theorem setters_atomic_on_failure_witness:
  "set_value 1 h_A 0 (JBool True) = Err UnrecognizedType h_A
   \<and> master_of (c_value (the_cell h_A 0)) = None
   \<and> set_model h_A 0 (JNum 5) = Err UnknownValueType h_A"
proof -
  have a: "set_value 1 h_A 0 (JBool True) = Err UnrecognizedType (heap_of (set_value 1 h_A 0 (JBool True)))"
    by (simp add: run_defs)
  have m: "master_of (c_value (the_cell h_A 0)) = None"
    by (simp add: run_defs)
  have b: "set_model h_A 0 (JNum 5) = Err UnknownValueType (heap_of (set_model h_A 0 (JNum 5)))"
    by (simp add: run_defs)
  from a m b
    setters_atomic_on_failure[of 1 h_A 0 "JBool True" UnrecognizedType "heap_of (set_value 1 h_A 0 (JBool True))"]
    setters_atomic_on_failure[of _ h_A 0 "JNum 5" UnknownValueType "heap_of (set_model h_A 0 (JNum 5))"]
  show ?thesis by (simp del: set_value.simps)
qed

text \<open>C1 as stated fails for the model setter on a Merge slave: the Value is released
  before the factory rejects the snapshot's type, so the call throws with the master's
  merge count already decremented and the released \<open>MergeValue\<close> still in place.\<close>

theorem model_setter_not_atomic_counterexample:
  "set_model h_merged_bad 1 (JObj 6) = Err UnknownValueType (heap_of (set_model h_merged_bad 1 (JObj 6)))
   \<and> get_mergeCount h_merged_bad 0 = 1
   \<and> get_mergeCount (heap_of (set_model h_merged_bad 1 (JObj 6))) 0 = 0
   \<and> get_type (heap_of (set_model h_merged_bad 1 (JObj 6))) 1 = TMerge
   \<and> get_master (heap_of (set_model h_merged_bad 1 (JObj 6))) 1 = Some 0"
  by (simp add: run_defs)

text \<open>C2, as amended. For every snapshot object \<open>m\<close> whose \<open>type\<close> is one of the seven
  tags, on a cell whose Value can be released (any cell but a Merge without a master),
  \<open>cell.model = m\<close> succeeds and makes the cell of that type, and \<open>cell.model\<close> then returns
  \<open>m\<close> itself with every property other than \<open>style\<close> as before (and \<open>style\<close> too when it
  was truthy): address, type and the type-specific fields are reproduced, for all seven
  types. For a cell of one of the six types other than Merge, whose snapshot still carries
  the cell's own tag as its \<open>type\<close> and whose \<open>style\<close> is truthy, \<open>cell.model = cell.model\<close>
  is a no-op after the read: the setter leaves every cell and every existing object as the
  getter left them and only allocates one object, the snapshot the new Value is built with
  and never reads.\<close>

theorem model_round_trip:
  assumes "valid_cell h c" and "r < length (h_objs h)"
  shows "(types (field_of (h_objs h ! r) ''type'') = Some T
          \<and> (get_type h c = TMerge \<longrightarrow> master_of (c_value (the_cell h c)) \<noteq> None) \<longrightarrow>
          (let h1 = heap_of (set_model h c (JObj r)); h2 = heap_of (get_model h1 c) in
             set_model h c (JObj r) = Ok () h1 \<and> get_type h1 c = T
             \<and> get_model h1 c = Ok (JObj r) h2
             \<and> (\<forall>f. f \<noteq> ''style'' \<longrightarrow> get_prop h2 (JObj r) f = get_prop h (JObj r) f)
             \<and> (truthy (field_of (h_objs h ! r) ''style'') \<longrightarrow> h_objs h2 ! r = h_objs h ! r)))
       \<and> (model_of (c_value (the_cell h c)) = JObj r \<and> get_type h c \<noteq> TMerge
          \<and> field_of (h_objs h ! r) ''type'' = JTag (get_type h c)
          \<and> truthy (c_style (the_cell h c)) \<longrightarrow>
          (let h1 = heap_of (get_model h c); h2 = heap_of (set_model h1 c (JObj r)) in
             get_model h c = Ok (JObj r) h1 \<and> set_model h1 c (JObj r) = Ok () h2
             \<and> h_cells h2 = h_cells h1
             \<and> length (h_objs h2) = Suc (length (h_objs h1))
             \<and> take (length (h_objs h1)) (h_objs h2) = h_objs h1))"
proof (intro conjI impI)
  assume a: "types (field_of (h_objs h ! r) ''type'') = Some T
          \<and> (get_type h c = TMerge \<longrightarrow> master_of (c_value (the_cell h c)) \<noteq> None)"
  from set_model_import[OF assms] a obtain h1 where
    s: "set_model h c (JObj r) = Ok () h1" and v1: "valid_cell h1 c" and t1: "get_type h1 c = T"
    and m1: "model_of (c_value (the_cell h1 c)) = JObj r" and r1: "r < length (h_objs h1)"
    and o1: "h_objs h1 ! r = h_objs h ! r"
    and s1: "c_style (the_cell h1 c) =
          (if truthy (field_of (h_objs h ! r) ''style'') then field_of (h_objs h ! r) ''style''
           else JObj (Suc (length (h_objs h))))"
    by blast
  have g: "get_model h1 c = Ok (JObj r)
      (h1\<lparr>h_objs := (h_objs h1)[r := AList.update ''style'' (c_style (the_cell h1 c)) (h_objs h1 ! r)]\<rparr>)"
    using v1 m1 r1 by (simp add: get_model_def)
  have same: "truthy (field_of (h_objs h ! r) ''style'') \<Longrightarrow>
      AList.update ''style'' (c_style (the_cell h1 c)) (h_objs h1 ! r) = h_objs h ! r"
    using s1 o1 by (auto simp: field_of_def update_triv split: option.splits)
  show "let h1 = heap_of (set_model h c (JObj r)); h2 = heap_of (get_model h1 c) in
             set_model h c (JObj r) = Ok () h1 \<and> get_type h1 c = T
             \<and> get_model h1 c = Ok (JObj r) h2
             \<and> (\<forall>f. f \<noteq> ''style'' \<longrightarrow> get_prop h2 (JObj r) f = get_prop h (JObj r) f)
             \<and> (truthy (field_of (h_objs h ! r) ''style'') \<longrightarrow> h_objs h2 ! r = h_objs h ! r)"
    using s t1 g r1 o1 assms(2) same
    by (auto simp: Let_def field_of_update)
next
  assume b: "model_of (c_value (the_cell h c)) = JObj r \<and> get_type h c \<noteq> TMerge
          \<and> field_of (h_objs h ! r) ''type'' = JTag (get_type h c)
          \<and> truthy (c_style (the_cell h c))"
  define h1 where "h1 = h\<lparr>h_objs := (h_objs h)[r := AList.update ''style'' (c_style (the_cell h c)) (h_objs h ! r)]\<rparr>"
  have g: "get_model h c = Ok (JObj r) h1"
    using assms b by (simp add: get_model_def h1_def)
  have v1: "valid_cell h1 c" and r1: "r < length (h_objs h1)"
    using assms by (simp_all add: h1_def)
  have c1: "the_cell h1 c = the_cell h c" by (simp add: h1_def)
  have rel: "release_value h1 (Held c) = Ok () h1"
    using b c1 by (simp add: release_value_not_Merge get_type_def)
  have ty: "types (field_of (h_objs h1 ! r) ''type'') = Some (get_type h c)"
    using b assms(2) by (simp add: h1_def field_of_update)
  have st: "field_of (h_objs h1 ! r) ''style'' = c_style (the_cell h c)"
    using assms(2) by (simp add: h1_def field_of_update)
  from create_from_snapshot[OF ty, of h1 c] obtain nv ob where
    cr: "create h1 (field_of (h_objs h1 ! r) ''type'') c JUndefined None
           = Ok nv (h1\<lparr>h_objs := h_objs h1 @ [ob]\<rparr>)" and k: "kind nv = get_type h c"
    and mn: "master_of nv = None"
    by blast
  have mo: "master_of (c_value (the_cell h c)) = None"
    using b by (cases "c_value (the_cell h c)") (simp_all add: get_type_def)
  have wm: "with_model nv (JObj r) = c_value (the_cell h c)"
    using with_model_same[of nv "c_value (the_cell h c)"] k b by (simp add: get_type_def)
  have cellsame: "(h_cells h1)[c := (h_cells h1 ! c)\<lparr>c_value := c_value (the_cell h c), c_style := c_style (the_cell h c)\<rparr>] = h_cells h1"
    using assms(1) by (simp add: h1_def the_cell_def valid_cell_def list_update_same_conv)
  have s: "set_model h1 c (JObj r) =
      Ok () (h1\<lparr>h_objs := h_objs h1 @ [ob], h_detached := h_detached h1 @ [c_value (the_cell h c)]\<rparr>)"
    using v1 r1 c1 rel cr st b wm cellsame
    by (simp add: set_model_def nth_append upd_cell_def install_def the_cell_def valid_cell_def)
  show "let h1 = heap_of (get_model h c); h2 = heap_of (set_model h1 c (JObj r)) in
             get_model h c = Ok (JObj r) h1 \<and> set_model h1 c (JObj r) = Ok () h2
             \<and> h_cells h2 = h_cells h1
             \<and> length (h_objs h2) = Suc (length (h_objs h1))
             \<and> take (length (h_objs h1)) (h_objs h2) = h_objs h1"
    using g s by (simp add: Let_def)
qed

theorem model_round_trip_witness:
  "valid_cell h_A42 0 \<and> 3 < length (h_objs h_A42)
   \<and> types (field_of (h_objs h_A42 ! 3) ''type'') = Some TNumber
   \<and> get_type h_A42 0 \<noteq> TMerge
   \<and> model_of (c_value (the_cell h_A42 0)) = JObj 3
   \<and> field_of (h_objs h_A42 ! 3) ''type'' = JTag (get_type h_A42 0)
   \<and> truthy (c_style (the_cell h_A42 0))
   \<and> get_model (heap_of (set_model h_A42 0 (JObj 3))) 0
        = Ok (JObj 3) (heap_of (get_model (heap_of (set_model h_A42 0 (JObj 3))) 0))
   \<and> h_cells (heap_of (set_model (heap_of (get_model h_A42 0)) 0 (JObj 3)))
        = h_cells (heap_of (get_model h_A42 0))"
proof -
  have hy: "valid_cell h_A42 0" "3 < length (h_objs h_A42)"
    by (simp_all add: run_defs)
  have p1: "types (field_of (h_objs h_A42 ! 3) ''type'') = Some TNumber"
    and nm: "get_type h_A42 0 \<noteq> TMerge"
    and p2: "model_of (c_value (the_cell h_A42 0)) = JObj 3"
      "field_of (h_objs h_A42 ! 3) ''type'' = JTag (get_type h_A42 0)"
      "truthy (c_style (the_cell h_A42 0))"
    by (simp_all add: run_defs)
  from model_round_trip[OF hy, of TNumber] p1 nm
  have a: "get_model (heap_of (set_model h_A42 0 (JObj 3))) 0
        = Ok (JObj 3) (heap_of (get_model (heap_of (set_model h_A42 0 (JObj 3))) 0))"
    unfolding Let_def by blast
  from model_round_trip[OF hy, of TNumber] p2 nm
  have b: "h_cells (heap_of (set_model (heap_of (get_model h_A42 0)) 0 (JObj 3)))
        = h_cells (heap_of (get_model h_A42 0))"
    unfolding Let_def by blast
  from hy p1 nm p2 a b show ?thesis by blast
qed

text \<open>C2 as stated fails in four ways. For Merge the snapshot holds the master's address
  only, so the Value built from it has no master: after \<open>B.model = B.model\<close> on a slave
  \<open>B\<close> of \<open>A\<close>, \<open>A.mergeCount\<close> has dropped from 1 to 0, \<open>B.master\<close> is \<open>undefined\<close>, and
  reading \<open>B.value\<close> throws where it returned \<open>A\<close>'s value before. On the Merge without a
  master that this leaves, a further \<open>B.model = B.model\<close> throws a \<open>TypeError\<close>, as the
  Value cannot be released. On a cell holding 42 whose snapshot has had its \<open>type\<close>
  overwritten with the String tag, \<open>cell.model = cell.model\<close> turns the cell from a Number
  into a String. And on a cell whose \<open>style\<close> has been set to \<open>null\<close>,
  \<open>cell.model = cell.model\<close> replaces the style by a new empty object.\<close>

theorem model_round_trip_Merge_counterexample:
  "get_type h_merged 1 = TMerge
   \<and> get_model h_merged 1 = Ok (JObj 5) h_merged_read
   \<and> set_model h_merged_read 1 (JObj 5) = Ok () h_reimported
   \<and> get_mergeCount h_merged_read 0 = 1 \<and> get_mergeCount h_reimported 0 = 0
   \<and> get_master h_merged_read 1 = Some 0 \<and> get_master h_reimported 1 = None
   \<and> get_value (Suc (Suc 0)) h_merged_read 1 = Ok JNull h_merged_read
   \<and> get_value (Suc (Suc 0)) h_reimported 1 = Err TypeError h_reimported
   \<and> get_model h_reimported 1 = Ok (JObj 5) h_reimported
   \<and> set_model h_reimported 1 (JObj 5) = Err TypeError h_reimported
   \<and> get_type h_A42_retyped 0 = TNumber
   \<and> get_model h_A42_retyped 0 = Ok (JObj 3) h_A42_retyped
   \<and> set_model h_A42_retyped 0 (JObj 3) = Ok () (heap_of (set_model h_A42_retyped 0 (JObj 3)))
   \<and> get_type (heap_of (set_model h_A42_retyped 0 (JObj 3))) 0 = TString
   \<and> c_style (the_cell h_A42_unstyled 0) = JNull
   \<and> get_model h_A42_unstyled 0 = Ok (JObj 3) (heap_of (get_model h_A42_unstyled 0))
   \<and> set_model (heap_of (get_model h_A42_unstyled 0)) 0 (JObj 3)
        = Ok () (heap_of (set_model (heap_of (get_model h_A42_unstyled 0)) 0 (JObj 3)))
   \<and> c_style (the_cell (heap_of (set_model (heap_of (get_model h_A42_unstyled 0)) 0 (JObj 3))) 0)
        = JObj 5"
  by (simp add: run_defs h_A42_retyped_def h_A42_unstyled_def set_style_def)

text \<open>C5, as amended. Take the states a program reaches by the public operations (its own
  object literals and property assignments, cell creation, \<open>merge\<close>, \<open>unmerge\<close>, value
  assignment, assigning a Cell or any other value to a \<open>MergeValue\<close>, model import,
  \<open>release\<close>, \<open>_upgradeToHyperlink\<close> and the getters), whether the calls return or throw,
  as long as no Value object on which \<open>release()\<close> has been called is released again (by
  the program, or by \<open>merge\<close>, \<open>unmerge\<close> or a model import on the cell that still holds
  it) or has a Cell assigned to it. In every such state the merge count of every cell
  equals the number of live (not yet released) Merge variants whose master is that cell,
  and so is never negative. Assigning a cell \<open>C\<close> to a \<open>MergeValue\<close> whose master is \<open>A\<close>,
  with \<open>C\<close> other than \<open>A\<close>, succeeds, takes exactly 1 from \<open>A.mergeCount\<close>, adds exactly 1
  to \<open>C.mergeCount\<close> and makes \<open>C\<close> the master.\<close>

theorem merge_count_invariant:
  "(reach E h \<longrightarrow>
      merge_inv h \<and> (\<forall>a. valid_cell h a \<longrightarrow> get_mergeCount h a = int (refs_to h a) \<and> 0 \<le> get_mergeCount h a))
   \<and> (valid_loc h l \<and> valid_cell h a \<and> valid_cell h b \<and> a \<noteq> b
        \<and> value_at h l = MergeValue m (Some a) rl \<longrightarrow>
        MergeValue_set_value n h l (Inr b) = Ok () (heap_of (MergeValue_set_value n h l (Inr b)))
        \<and> get_mergeCount (heap_of (MergeValue_set_value n h l (Inr b))) a = get_mergeCount h a - 1
        \<and> get_mergeCount (heap_of (MergeValue_set_value n h l (Inr b))) b = get_mergeCount h b + 1
        \<and> master_of (value_at (heap_of (MergeValue_set_value n h l (Inr b))) l) = Some b)"
proof (intro conjI impI)
  assume "reach E h"
  from reach_good[OF this] have i: "merge_inv h" by (simp add: good_def)
  then show "merge_inv h" .
  from i show "\<forall>a. valid_cell h a \<longrightarrow> get_mergeCount h a = int (refs_to h a) \<and> 0 \<le> get_mergeCount h a"
    by (simp add: merge_inv_def valid_cell_def get_mergeCount_def the_cell_def)
next
  assume a: "valid_loc h l \<and> valid_cell h a \<and> valid_cell h b \<and> a \<noteq> b
        \<and> value_at h l = MergeValue m (Some a) rl"
  then have "valid_loc h l" "valid_cell h a" "valid_cell h b" "a \<noteq> b"
    "value_at h l = MergeValue m (Some a) rl" by simp_all
  from retarget_counts[OF this, of n]
  show "MergeValue_set_value n h l (Inr b) = Ok () (heap_of (MergeValue_set_value n h l (Inr b)))"
    "get_mergeCount (heap_of (MergeValue_set_value n h l (Inr b))) a = get_mergeCount h a - 1"
    "get_mergeCount (heap_of (MergeValue_set_value n h l (Inr b))) b = get_mergeCount h b + 1"
    "master_of (value_at (heap_of (MergeValue_set_value n h l (Inr b))) l) = Some b"
    by blast+
qed

text \<open>With three cells, \<open>B\<close> merged onto \<open>A\<close>: \<open>A\<close> counts 1, and assigning \<open>C\<close> to the
  \<open>MergeValue\<close> of \<open>B\<close> moves the reference from \<open>A\<close> to \<open>C\<close>.\<close>

theorem merge_count_invariant_witness:
  "reach E0 h_ABC \<and> merge_inv h_ABC
   \<and> valid_loc h_ABC (Held 1) \<and> valid_cell h_ABC 0 \<and> valid_cell h_ABC 2 \<and> (0::nat) \<noteq> 2
   \<and> value_at h_ABC (Held 1) = MergeValue (JObj 5) (Some 0) False
   \<and> get_mergeCount h_ABC 0 = 1 \<and> refs_to h_ABC 0 = 1 \<and> get_mergeCount h_ABC 2 = 0
   \<and> get_mergeCount (heap_of (MergeValue_set_value 0 h_ABC (Held 1) (Inr 2))) 0 = 0
   \<and> get_mergeCount (heap_of (MergeValue_set_value 0 h_ABC (Held 1) (Inr 2))) 2 = 1"
proof -
  have hy: "valid_loc h_ABC (Held 1) \<and> valid_cell h_ABC 0 \<and> valid_cell h_ABC 2 \<and> (0::nat) \<noteq> 2
        \<and> value_at h_ABC (Held 1) = MergeValue (JObj 5) (Some 0) False"
    by (simp add: run_defs)
  have cn: "get_mergeCount h_ABC 0 = 1" "refs_to h_ABC 0 = 1" "get_mergeCount h_ABC 2 = 0"
    by (simp_all add: run_defs refs_to_def all_values_def)
  from merge_count_invariant[of E0 h_ABC "Held 1" 0 2 "JObj 5" False 0] reach_h_ABC hy cn
  show ?thesis by simp
qed

text \<open>C5 as stated fails in three ways, each by public operations alone. The import of a
  snapshot of unknown type on the slave \<open>B\<close> of \<open>A\<close> releases the \<open>MergeValue\<close> and then
  throws, with \<open>B\<close> still holding it; \<open>B.unmerge()\<close> then releases the same Value again,
  and \<open>A.mergeCount\<close> is \<open>-1\<close>. A program that calls \<open>release()\<close> twice on the
  \<open>MergeValue\<close> of \<open>B\<close> gets the same. And with \<open>mv = B._value\<close> kept by the program,
  \<open>B.unmerge()\<close> releases \<open>mv\<close> and replaces it; \<open>mv.value = C\<close> then returns normally
  and leaves \<open>A.mergeCount\<close> \<open>-1\<close> and \<open>C.mergeCount\<close> 1 with no live Merge variant left.\<close>

theorem merge_count_negative_counterexample:
  "set_model h_merged_bad 1 (JObj 6) = Err UnknownValueType h_failed
   \<and> get_type h_failed 1 = TMerge \<and> get_master h_failed 1 = Some 0
   \<and> released (value_at h_failed (Held 1))
   \<and> unmerge h_failed 1 = Ok () (heap_of (unmerge h_failed 1))
   \<and> refs_to (heap_of (unmerge h_failed 1)) 0 = 0
   \<and> get_mergeCount (heap_of (unmerge h_failed 1)) 0 = - 1
   \<and> get_mergeCount h_merged 0 = 1
   \<and> release_value h_merged (Held 1) = Ok () (heap_of (release_value h_merged (Held 1)))
   \<and> get_mergeCount
        (heap_of (release_value (heap_of (release_value h_merged (Held 1))) (Held 1))) 0 = - 1
   \<and> value_at h_ABC (Held 1) = MergeValue (JObj 5) (Some 0) False
   \<and> unmerge h_ABC 1 = Ok () h_unmerged
   \<and> value_at h_unmerged (Detached 1) = MergeValue (JObj 5) (Some 0) True
   \<and> MergeValue_set_value 0 h_unmerged (Detached 1) (Inr 2) = Ok () h_stale
   \<and> get_mergeCount h_stale 0 = - 1 \<and> refs_to h_stale 0 = 0
   \<and> get_mergeCount h_stale 2 = 1 \<and> refs_to h_stale 2 = 0
   \<and> get_type h_stale 0 \<noteq> TMerge \<and> get_type h_stale 1 \<noteq> TMerge \<and> get_type h_stale 2 \<noteq> TMerge"
  by (simp add: run_defs refs_to_def all_values_def h_unmerged_def h_stale_def
        MergeValue_set_value_def)
end
